theory Spec2Isabelle
  imports Main "HOL-Library.Word"
begin

section \<open>The Markov chain quote generator of main.c\<close>

text \<open>
  The development follows main.c top to bottom. Conventions of the embedding:
  \<^item> a C string is the sequence of its characters before the terminating NUL, a
    \<open>string\<close>; \<open>strcmp(a, b) == 0\<close> is equality of the two sequences;
  \<^item> a pointer that the code tests against \<open>NULL\<close> is an \<open>option\<close>; the structs are
    values, except where sharing matters (the copy of a context), where they live in a
    store of addresses;
  \<^item> undefined behaviour of the C program (a null pointer handed to \<open>strdup\<close>, a
    pointer to nothing allocated, a remainder by zero, an index outside an array) is a
    value of the type \<open>error\<close>;
  \<^item> \<open>size_t\<close> is a 64-bit word: the hash, the occurrence counts and their total wrap
    around at \<open>2 ^ 64\<close>;
  \<^item> \<open>malloc\<close>, \<open>calloc\<close>, \<open>realloc\<close> and \<open>strdup\<close> of a string succeed, and
    \<open>free\<close> has no effect on the values;
  \<^item> the fields of the structs carry the name of their struct (\<open>value_word\<close> for
    \<open>word\<close> of \<open>MarkovValue\<close>, \<open>model_size\<close> for \<open>size\<close> of \<open>MarkovModel\<close>), the
    plain names being keywords or constants of Isabelle/HOL.
\<close>

subsection \<open>Constants\<close>

definition MARKOV_CONTEXT_SIZE :: nat where
  "MARKOV_CONTEXT_SIZE = 3"

definition MAX_QUOTE_LENGTH :: nat where
  "MAX_QUOTE_LENGTH = 50"

definition HASH_MAP_SIZE :: nat where
  "HASH_MAP_SIZE = 420"

text \<open>\<open>sizeof(line)\<close> for the buffer \<open>char line[1024]\<close> of \<open>markov_model_load_file\<close>.\<close>

definition LINE_SIZE :: nat where
  "LINE_SIZE = 1024"

datatype error = NullDereference | InvalidPointer | DivisionByZero | IndexOutOfRange

type_synonym size_t = "64 word"

subsection \<open>MarkovContext\<close>

text \<open>\<open>char *previous_words[MARKOV_CONTEXT_SIZE]\<close>: a slot is \<open>None\<close> when the pointer is null.\<close>

record MarkovContext =
  previous_words :: "string option list"

definition markov_context_new :: MarkovContext where
  "markov_context_new = \<lparr>previous_words = replicate MARKOV_CONTEXT_SIZE None\<rparr>"

definition markov_context_reset :: "MarkovContext option \<Rightarrow> MarkovContext" where
  "markov_context_reset context =
     (case context of
        None \<Rightarrow> markov_context_new
      | Some c \<Rightarrow>
          fold (\<lambda>i c. c\<lparr>previous_words := (previous_words c)[i := None]\<rparr>)
            [0..<MARKOV_CONTEXT_SIZE] c)"

text \<open>\<open>strdup(word)\<close> reads the string \<open>word\<close> points to: a null \<open>word\<close> is undefined behaviour.\<close>

definition strdup :: "string option \<Rightarrow> error + string" where
  "strdup word = (case word of None \<Rightarrow> Inl NullDereference | Some w \<Rightarrow> Inr w)"

definition markov_context_push_word ::
  "MarkovContext option \<Rightarrow> string option \<Rightarrow> error + MarkovContext" where
  "markov_context_push_word context word =
     (let context = (case context of None \<Rightarrow> markov_context_new | Some c \<Rightarrow> c);
          last_index = MARKOV_CONTEXT_SIZE - 1
      in case strdup word of
           Inl e \<Rightarrow> Inl e
         | Inr new_word \<Rightarrow>
             (let shifted =
                    fold (\<lambda>i c. c\<lparr>previous_words :=
                                     (previous_words c)[i := previous_words c ! (i + 1)]\<rparr>)
                      [0..<last_index] context
              in Inr (shifted\<lparr>previous_words :=
                                (previous_words shifted)[last_index := Some new_word]\<rparr>)))"

text \<open>
  \<open>int c = *word++\<close> reads a plain \<open>char\<close>, whose signedness the C implementation
  chooses; \<open>hash + c\<close> then converts \<open>c\<close> to \<open>size_t\<close>. The parameter \<open>sg\<close> says
  whether plain \<open>char\<close> is signed: a character from 128 up is then sign-extended.
\<close>

definition char_to_size_t :: "bool \<Rightarrow> char \<Rightarrow> size_t" where
  "char_to_size_t sg c =
     (if sg then scast (of_char c :: 8 word) else ucast (of_char c :: 8 word))"

fun hash_word :: "bool \<Rightarrow> size_t \<Rightarrow> string \<Rightarrow> size_t" where
  "hash_word sg hash [] = hash"
| "hash_word sg hash (c # word) =
     hash_word sg ((push_bit 5 hash + hash) + char_to_size_t sg c) word"

definition markov_context_get_hash :: "bool \<Rightarrow> MarkovContext \<Rightarrow> size_t" where
  "markov_context_get_hash sg context =
     fold (\<lambda>i hash.
             case previous_words context ! i of
               Some word \<Rightarrow> hash_word sg hash word
             | None \<Rightarrow> push_bit 5 hash + hash)
       [0..<MARKOV_CONTEXT_SIZE] 5381"

fun check_match_loop :: "nat list \<Rightarrow> MarkovContext \<Rightarrow> MarkovContext \<Rightarrow> bool" where
  "check_match_loop [] a b = True"
| "check_match_loop (i # rest) a b =
     (let word_a = previous_words a ! i;
          word_b = previous_words b ! i
      in if word_a = None \<and> word_b = None then check_match_loop rest a b
         else if word_a = None \<or> word_b = None then False
         else if the word_a \<noteq> the word_b then False
         else check_match_loop rest a b)"

definition markov_context_check_match :: "MarkovContext \<Rightarrow> MarkovContext \<Rightarrow> bool" where
  "markov_context_check_match a b = check_match_loop [0..<MARKOV_CONTEXT_SIZE] a b"

fun copy_loop :: "nat list \<Rightarrow> MarkovContext \<Rightarrow> MarkovContext \<Rightarrow> error + MarkovContext" where
  "copy_loop [] original_context new_context = Inr new_context"
| "copy_loop (i # rest) original_context new_context =
     (case previous_words original_context ! i of
        Some word \<Rightarrow>
          (case markov_context_push_word (Some new_context) (Some word) of
             Inl e \<Rightarrow> Inl e
           | Inr new_context' \<Rightarrow> copy_loop rest original_context new_context')
      | None \<Rightarrow> copy_loop rest original_context new_context)"

definition markov_context_copy :: "MarkovContext option \<Rightarrow> error + MarkovContext option" where
  "markov_context_copy original_context =
     (case original_context of
        None \<Rightarrow> Inr None
      | Some original \<Rightarrow>
          (case copy_loop [0..<MARKOV_CONTEXT_SIZE] original markov_context_new of
             Inl e \<Rightarrow> Inl e
           | Inr new_context \<Rightarrow> Inr (Some new_context)))"

text \<open>The contexts the program can build: from a fresh one, by pushing words and resetting.\<close>

inductive reachable :: "MarkovContext \<Rightarrow> bool" where
  reachable_new: "reachable markov_context_new"
| reachable_push:
    "reachable c \<Longrightarrow> markov_context_push_word (Some c) (Some w) = Inr c' \<Longrightarrow> reachable c'"
| reachable_reset: "reachable c \<Longrightarrow> reachable (markov_context_reset (Some c))"

text \<open>Slot equality in the words of the specification: an unfilled slot equals only an unfilled one.\<close>

fun slot_equal :: "string option \<Rightarrow> string option \<Rightarrow> bool" where
  "slot_equal None None = True"
| "slot_equal None (Some y) = False"
| "slot_equal (Some x) None = False"
| "slot_equal (Some x) (Some y) = (x = y)"

text \<open>The unfilled slots are a prefix of the \<open>MARKOV_CONTEXT_SIZE\<close> slots: no filled slot comes before an unfilled one.\<close>

definition unfilled_prefix :: "MarkovContext \<Rightarrow> bool" where
  "unfilled_prefix c \<longleftrightarrow>
     length (previous_words c) = MARKOV_CONTEXT_SIZE \<and>
     (\<forall>j<MARKOV_CONTEXT_SIZE. \<forall>i<j.
        previous_words c ! i \<noteq> None \<longrightarrow> previous_words c ! j \<noteq> None)"

text \<open>
  The djb2 reference in the words of the specification: seed 5381, \<open>hash = hash*33 + byte\<close>
  for each character of a filled slot, \<open>hash = hash*33\<close> for an unfilled slot, the slots in
  order. \<open>byte\<close> is the reading of a character: \<open>byte_value\<close>, the byte from 0 to 255, is
  the one the specification names.
\<close>

definition byte_value :: "char \<Rightarrow> size_t" where
  "byte_value c = of_nat (of_char c)"

definition context_slots :: "MarkovContext \<Rightarrow> string option list" where
  "context_slots c = map (\<lambda>i. previous_words c ! i) [0..<MARKOV_CONTEXT_SIZE]"

definition djb2_reference :: "(char \<Rightarrow> size_t) \<Rightarrow> string option list \<Rightarrow> size_t" where
  "djb2_reference byte slots =
     foldl (\<lambda>hash slot.
              case slot of
                Some word \<Rightarrow> foldl (\<lambda>h c. h * 33 + byte c) hash word
              | None \<Rightarrow> hash * 33)
       5381 slots"

text \<open>Every character of every filled slot is below 128.\<close>

definition ascii_slots :: "string option list \<Rightarrow> bool" where
  "ascii_slots slots \<longleftrightarrow>
     list_all (\<lambda>slot. case slot of
                        None \<Rightarrow> True
                      | Some word \<Rightarrow> list_all (\<lambda>c. of_char c < (128::nat)) word) slots"

subsection \<open>MarkovContext in memory\<close>

text \<open>
  The same functions on a store, to state what a copy shares with its original. A
  context pointer is the address of a struct, whose \<open>previous_words\<close> are null or the
  addresses of strings. \<open>calloc\<close> and \<open>strdup\<close> return an address that is not
  allocated, here the next address never used; \<open>free\<close> releases a string.
\<close>

type_synonym addr = nat

record store =
  strings :: "addr \<Rightarrow> string option"
  structs :: "addr \<Rightarrow> addr option list option"
  next_addr :: addr

definition markov_context_new_store :: "store \<Rightarrow> addr \<times> store" where
  "markov_context_new_store s =
     (next_addr s,
      s\<lparr>structs := (structs s)(next_addr s \<mapsto> replicate MARKOV_CONTEXT_SIZE None),
        next_addr := next_addr s + 1\<rparr>)"

definition strdup_store :: "store \<Rightarrow> addr option \<Rightarrow> error + (addr \<times> store)" where
  "strdup_store s word =
     (case word of
        None \<Rightarrow> Inl NullDereference
      | Some p \<Rightarrow>
          (case strings s p of
             None \<Rightarrow> Inl InvalidPointer
           | Some w \<Rightarrow>
               Inr (next_addr s,
                    s\<lparr>strings := (strings s)(next_addr s \<mapsto> w), next_addr := next_addr s + 1\<rparr>)))"

definition free_store :: "store \<Rightarrow> addr \<Rightarrow> store" where
  "free_store s p = s\<lparr>strings := (strings s)(p := None)\<rparr>"

definition markov_context_push_word_store ::
  "store \<Rightarrow> addr option \<Rightarrow> addr option \<Rightarrow> error + (addr \<times> store)" where
  "markov_context_push_word_store s context word =
     (let (context, s) = (case context of None \<Rightarrow> markov_context_new_store s | Some c \<Rightarrow> (c, s));
          last_index = MARKOV_CONTEXT_SIZE - 1
      in case strdup_store s word of
           Inl e \<Rightarrow> Inl e
         | Inr (new_word, s) \<Rightarrow>
             (case structs s context of
                None \<Rightarrow> Inl InvalidPointer
              | Some words \<Rightarrow>
                  (let s = (case words ! 0 of Some p \<Rightarrow> free_store s p | None \<Rightarrow> s);
                       shifted = fold (\<lambda>i ws. ws[i := ws ! (i + 1)]) [0..<last_index] words
                   in Inr (context,
                           s\<lparr>structs := (structs s)
                                (context \<mapsto> shifted[last_index := Some new_word])\<rparr>))))"

fun copy_loop_store :: "nat list \<Rightarrow> store \<Rightarrow> addr \<Rightarrow> addr \<Rightarrow> error + (addr \<times> store)" where
  "copy_loop_store [] s original_context new_context = Inr (new_context, s)"
| "copy_loop_store (i # rest) s original_context new_context =
     (case structs s original_context of
        None \<Rightarrow> Inl InvalidPointer
      | Some words \<Rightarrow>
          (case words ! i of
             Some word \<Rightarrow>
               (case markov_context_push_word_store s (Some new_context) (Some word) of
                  Inl e \<Rightarrow> Inl e
                | Inr (new_context', s') \<Rightarrow>
                    copy_loop_store rest s' original_context new_context')
           | None \<Rightarrow> copy_loop_store rest s original_context new_context))"

definition markov_context_copy_store ::
  "store \<Rightarrow> addr option \<Rightarrow> error + (addr option \<times> store)" where
  "markov_context_copy_store s original_context =
     (case original_context of
        None \<Rightarrow> Inr (None, s)
      | Some original \<Rightarrow>
          (let (new_context, s1) = markov_context_new_store s
           in case copy_loop_store [0..<MARKOV_CONTEXT_SIZE] s1 original new_context of
                Inl e \<Rightarrow> Inl e
              | Inr (new_context', s') \<Rightarrow> Inr (Some new_context', s')))"

text \<open>The value of the context at an address: each pointer replaced by the string it points to.\<close>

definition context_at :: "store \<Rightarrow> addr \<Rightarrow> MarkovContext option" where
  "context_at s a =
     (case structs s a of
        None \<Rightarrow> None
      | Some words \<Rightarrow>
          Some \<lparr>previous_words =
                  map (\<lambda>p. case p of None \<Rightarrow> None | Some q \<Rightarrow> strings s q) words\<rparr>)"

text \<open>
  Every allocated address is below the next address; a context has
  \<open>MARKOV_CONTEXT_SIZE\<close> slots and its pointers point to allocated strings.
\<close>

definition store_wf :: "store \<Rightarrow> bool" where
  "store_wf s \<longleftrightarrow>
     (\<forall>p. strings s p \<noteq> None \<longrightarrow> p < next_addr s) \<and>
     (\<forall>a. structs s a \<noteq> None \<longrightarrow> a < next_addr s)"

definition context_wf :: "store \<Rightarrow> addr \<Rightarrow> bool" where
  "context_wf s a \<longleftrightarrow>
     (\<exists>words. structs s a = Some words \<and> length words = MARKOV_CONTEXT_SIZE \<and>
        (\<forall>p. Some p \<in> set words \<longrightarrow> strings s p \<noteq> None))"

subsection \<open>MarkovValue\<close>

text \<open>
  A \<open>MarkovValue *\<close> is the list of the cells reached through \<open>next\<close>; the null pointer
  is the empty list.
\<close>

record MarkovValue =
  value_word :: string
  value_count :: size_t

definition markov_value_new :: "string \<Rightarrow> MarkovValue" where
  "markov_value_new word = \<lparr>value_word = word, value_count = 1\<rparr>"

text \<open>The loop of \<open>markov_value_add_word\<close>: \<open>Some\<close> list when a cell holds \<open>word\<close>.\<close>

fun value_find_increment :: "MarkovValue list \<Rightarrow> string \<Rightarrow> MarkovValue list option" where
  "value_find_increment [] word = None"
| "value_find_increment (v # rest) word =
     (if value_word v = word then Some (v\<lparr>value_count := value_count v + 1\<rparr> # rest)
      else (case value_find_increment rest word of
              None \<Rightarrow> None
            | Some rest' \<Rightarrow> Some (v # rest')))"

definition markov_value_add_word :: "MarkovValue list \<Rightarrow> string \<Rightarrow> MarkovValue list" where
  "markov_value_add_word val word =
     (case value_find_increment val word of
        Some val' \<Rightarrow> val'
      | None \<Rightarrow> markov_value_new word # val)"

text \<open>
  \<open>rand()\<close>: the source of random numbers is the sequence of the results of the calls
  still to come; a call takes the first and leaves the rest. The result is an \<open>int\<close>
  that is not negative, so it is below \<open>2 ^ 31\<close>.
\<close>

type_synonym rng = "nat \<Rightarrow> nat"

definition rand :: "rng \<Rightarrow> nat \<times> rng" where
  "rand g = (g 0 mod 2 ^ 31, \<lambda>n. g (Suc n))"

definition total_count :: "MarkovValue list \<Rightarrow> size_t" where
  "total_count val = fold (\<lambda>v total. total + value_count v) val 0"

fun random_walk :: "MarkovValue list \<Rightarrow> size_t \<Rightarrow> string option" where
  "random_walk [] r = None"
| "random_walk (v # rest) r =
     (if r < value_count v then Some (value_word v)
      else random_walk rest (r - value_count v))"

text \<open>
  \<open>rand() % total_count\<close> converts the result of \<open>rand()\<close> to \<open>size_t\<close>; a total of 0,
  for no table or after wrap-around, is a remainder by zero.
\<close>

definition markov_value_get_random :: "MarkovValue list \<Rightarrow> rng \<Rightarrow> error + (string \<times> rng)" where
  "markov_value_get_random val g =
     (let total = total_count val;
          (x, g') = rand g
      in if total = 0 then Inl DivisionByZero
         else (let r = of_nat x mod total
               in case random_walk val r of
                    Some w \<Rightarrow> Inr (w, g')
                  | None \<Rightarrow>
                      (case val of
                         [] \<Rightarrow> Inl NullDereference
                       | v # _ \<Rightarrow> Inr (value_word v, g'))))"

text \<open>
  The total count of a table in the words of the specification, the sum of its counts as
  numbers, and the cumulative count before entry \<open>i\<close>, in the order of the list.
\<close>

definition table_total :: "MarkovValue list \<Rightarrow> nat" where
  "table_total val = sum_list (map (\<lambda>v. unat (value_count v)) val)"

definition cumulative :: "MarkovValue list \<Rightarrow> nat \<Rightarrow> nat" where
  "cumulative val i = table_total (take i val)"

subsection \<open>MarkovNode\<close>

record MarkovNode =
  node_context :: MarkovContext
  node_value :: "MarkovValue list"

text \<open>The loop of \<open>markov_node_add_node\<close>: \<open>Some\<close> list when a node matches \<open>context\<close>.\<close>

fun node_find_add :: "MarkovNode list \<Rightarrow> MarkovContext \<Rightarrow> string \<Rightarrow> MarkovNode list option" where
  "node_find_add [] context word = None"
| "node_find_add (n # rest) context word =
     (if markov_context_check_match (node_context n) context
      then Some (n\<lparr>node_value := markov_value_add_word (node_value n) word\<rparr> # rest)
      else (case node_find_add rest context word of
              None \<Rightarrow> None
            | Some rest' \<Rightarrow> Some (n # rest')))"

text \<open>
  \<open>markov_context_copy\<close> returns null only for a null argument, which this call does not
  pass; a node with a null context would be dereferenced by the next scan of the list.
\<close>

definition markov_node_add_node ::
  "MarkovNode list \<Rightarrow> MarkovContext \<Rightarrow> string \<Rightarrow> error + MarkovNode list" where
  "markov_node_add_node node context word =
     (case node_find_add node context word of
        Some node' \<Rightarrow> Inr node'
      | None \<Rightarrow>
          (case markov_context_copy (Some context) of
             Inl e \<Rightarrow> Inl e
           | Inr None \<Rightarrow> Inl NullDereference
           | Inr (Some c) \<Rightarrow>
               Inr (\<lparr>node_context = c, node_value = markov_value_add_word [] word\<rparr> # node)))"

subsection \<open>MarkovModel\<close>

record MarkovModel =
  model_size :: nat
  model_nodes :: "MarkovNode list list"

definition markov_model_new :: "nat \<Rightarrow> MarkovModel" where
  "markov_model_new sz = \<lparr>model_size = sz, model_nodes = replicate sz []\<rparr>"

text \<open>\<open>markov_context_get_hash(context) % model->size\<close>, and the read of \<open>model->nodes\<close> there.\<close>

definition bucket_index :: "bool \<Rightarrow> MarkovModel \<Rightarrow> MarkovContext \<Rightarrow> error + nat" where
  "bucket_index sg model context =
     (if model_size model = 0 then Inl DivisionByZero
      else (let index = unat (markov_context_get_hash sg context) mod model_size model
            in if index < length (model_nodes model) then Inr index
               else Inl IndexOutOfRange))"

definition markov_model_add_data ::
  "bool \<Rightarrow> MarkovModel option \<Rightarrow> MarkovContext \<Rightarrow> string \<Rightarrow> error + MarkovModel option" where
  "markov_model_add_data sg model context word =
     (case model of
        None \<Rightarrow> Inr None
      | Some m \<Rightarrow>
          (case bucket_index sg m context of
             Inl e \<Rightarrow> Inl e
           | Inr index \<Rightarrow>
               (case markov_node_add_node (model_nodes m ! index) context word of
                  Inl e \<Rightarrow> Inl e
                | Inr node \<Rightarrow> Inr (Some (m\<lparr>model_nodes := (model_nodes m)[index := node]\<rparr>)))))"

fun get_next_loop ::
  "MarkovNode list \<Rightarrow> MarkovContext \<Rightarrow> rng \<Rightarrow> error + (string option \<times> rng)" where
  "get_next_loop [] context g = Inr (None, g)"
| "get_next_loop (n # rest) context g =
     (if markov_context_check_match (node_context n) context
      then (case markov_value_get_random (node_value n) g of
              Inl e \<Rightarrow> Inl e
            | Inr (w, g') \<Rightarrow> Inr (Some w, g'))
      else get_next_loop rest context g)"

definition markov_model_get_next ::
  "bool \<Rightarrow> MarkovModel \<Rightarrow> MarkovContext \<Rightarrow> rng \<Rightarrow> error + (string option \<times> rng)" where
  "markov_model_get_next sg model context g =
     (case bucket_index sg model context of
        Inl e \<Rightarrow> Inl e
      | Inr index \<Rightarrow> get_next_loop (model_nodes model ! index) context g)"

subsection \<open>Loading the training file\<close>

text \<open>
  \<open>strtok(line, " \t\n\r")\<close> and its further calls return the maximal runs of characters
  that are not delimiters, from left to right.
\<close>

definition is_delimiter :: "char \<Rightarrow> bool" where
  "is_delimiter c \<longleftrightarrow> c = CHR '' '' \<or> c = CHR 0x09 \<or> c = CHR 0x0A \<or> c = CHR 0x0D"

fun tokens :: "string \<Rightarrow> string \<Rightarrow> string list" where
  "tokens cur [] = (if cur = [] then [] else [cur])"
| "tokens cur (c # cs) =
     (if is_delimiter c then (if cur = [] then tokens [] cs else cur # tokens [] cs)
      else tokens (cur @ [c]) cs)"

definition strtok_all :: "string \<Rightarrow> string list" where
  "strtok_all line = tokens [] line"

text \<open>\<open>word[0]\<close>: the first character of the string, the terminating NUL when it is empty.\<close>

definition first_char :: "string \<Rightarrow> char" where
  "first_char word = (case word of [] \<Rightarrow> CHR 0x00 | c # _ \<Rightarrow> c)"

fun load_words ::
  "bool \<Rightarrow> MarkovModel option \<Rightarrow> MarkovContext \<Rightarrow> string list \<Rightarrow>
     error + (MarkovModel option \<times> MarkovContext)" where
  "load_words sg model context [] = Inr (model, context)"
| "load_words sg model context (word # rest) =
     (case markov_model_add_data sg model context word of
        Inl e \<Rightarrow> Inl e
      | Inr model' \<Rightarrow>
          (case markov_context_push_word (Some context) (Some word) of
             Inl e \<Rightarrow> Inl e
           | Inr context' \<Rightarrow> load_words sg model' context' rest))"

text \<open>The body of the \<open>fgets\<close> loop, for one string that \<open>fgets\<close> returns.\<close>

definition load_line ::
  "bool \<Rightarrow> MarkovModel option \<Rightarrow> MarkovContext \<Rightarrow> string \<Rightarrow>
     error + (MarkovModel option \<times> MarkovContext)" where
  "load_line sg model context line =
     (case strtok_all line of
        [] \<Rightarrow> Inr (model, markov_context_reset (Some context))
      | word # rest \<Rightarrow>
          if first_char word \<noteq> CHR ''-'' then load_words sg model context (word # rest)
          else Inr (model, context))"

fun load_lines ::
  "bool \<Rightarrow> MarkovModel option \<Rightarrow> MarkovContext \<Rightarrow> string list \<Rightarrow>
     error + (MarkovModel option \<times> MarkovContext)" where
  "load_lines sg model context [] = Inr (model, context)"
| "load_lines sg model context (line # rest) =
     (case load_line sg model context line of
        Inl e \<Rightarrow> Inl e
      | Inr (model', context') \<Rightarrow> load_lines sg model' context' rest)"

text \<open>
  The strings that the successive calls \<open>fgets(line, sizeof(line), file)\<close> return, until
  the call that returns null at the end of the file. A call reads characters until it
  has read a newline or \<open>sizeof(line) - 1\<close> characters: \<open>room\<close> is the number of
  characters the current call may still read, \<open>line\<close> what it has read. A line of the
  file longer than the buffer comes back in pieces.
\<close>

fun fgets_lines :: "nat \<Rightarrow> string \<Rightarrow> string \<Rightarrow> string list" where
  "fgets_lines room line [] = (if line = [] then [] else [line])"
| "fgets_lines room line (c # file) =
     (if c = CHR 0x0A \<or> room \<le> 1 then (line @ [c]) # fgets_lines (LINE_SIZE - 1) [] file
      else fgets_lines (room - 1) (line @ [c]) file)"

definition fgets_all :: "string \<Rightarrow> string list" where
  "fgets_all file = fgets_lines (LINE_SIZE - 1) [] file"

text \<open>
  The file is the sequence of its characters, \<open>None\<close> when \<open>fopen\<close> fails. The loop
  \<open>while (fgets(...))\<close> runs its body once for each string that \<open>fgets\<close> returns.
\<close>

definition markov_model_load_file :: "bool \<Rightarrow> string option \<Rightarrow> error + MarkovModel option" where
  "markov_model_load_file sg file =
     (case file of
        None \<Rightarrow> Inr None
      | Some content \<Rightarrow>
          (case load_lines sg (Some (markov_model_new HASH_MAP_SIZE)) markov_context_new
                  (fgets_all content) of
             Inl e \<Rightarrow> Inl e
           | Inr (model, context) \<Rightarrow> Inr model))"

subsection \<open>Generating a quote\<close>

definition check_end_condition :: "string \<Rightarrow> bool" where
  "check_end_condition word \<longleftrightarrow>
     CHR ''.'' \<in> set word \<or> CHR ''!'' \<in> set word \<or> CHR ''?'' \<in> set word"

definition add_word_to_quote :: "string option \<Rightarrow> string option \<Rightarrow> string option" where
  "add_word_to_quote quote word =
     (case quote of
        None \<Rightarrow> quote
      | Some q \<Rightarrow>
          (case word of
             None \<Rightarrow> quote
           | Some w \<Rightarrow> Some ((if q \<noteq> [] then q @ '' '' else q) @ w)))"

function generate_loop ::
  "bool \<Rightarrow> MarkovModel \<Rightarrow> MarkovContext \<Rightarrow> nat \<Rightarrow> string option \<Rightarrow> rng \<Rightarrow>
     error + (string option \<times> rng)" where
  "generate_loop sg model context counter quote g =
     (if counter \<le> MAX_QUOTE_LENGTH then
        (case markov_model_get_next sg model context g of
           Inl e \<Rightarrow> Inl e
         | Inr (word, g') \<Rightarrow>
             (case markov_context_push_word (Some context) word of
                Inl e \<Rightarrow> Inl e
              | Inr context' \<Rightarrow>
                  (case word of
                     None \<Rightarrow> Inr (quote, g')
                   | Some w \<Rightarrow>
                       (let quote' = add_word_to_quote quote word
                        in if check_end_condition w then Inr (quote', g')
                           else generate_loop sg model context' (counter + 1) quote' g'))))
      else Inr (quote, g))"
  by pat_completeness auto
termination
  by (relation "measure (\<lambda>(sg, model, context, counter, quote, g). MAX_QUOTE_LENGTH + 1 - counter)")
    auto

declare generate_loop.simps [simp del]

definition markov_model_generate_quote ::
  "bool \<Rightarrow> MarkovModel \<Rightarrow> rng \<Rightarrow> error + (string option \<times> rng)" where
  "markov_model_generate_quote sg model g =
     generate_loop sg model markov_context_new 0 (Some []) g"

text \<open>The quote that appending the words of a list, in order, builds from the empty quote.\<close>

definition quote_of_words :: "string list \<Rightarrow> string option" where
  "quote_of_words ws = foldl (\<lambda>quote w. add_word_to_quote quote (Some w)) (Some []) ws"

text \<open>The table a bucket, and a model, stores for a context: the value of the first matching node.\<close>

fun bucket_lookup :: "MarkovNode list \<Rightarrow> MarkovContext \<Rightarrow> MarkovValue list option" where
  "bucket_lookup [] context = None"
| "bucket_lookup (n # rest) context =
     (if markov_context_check_match (node_context n) context then Some (node_value n)
      else bucket_lookup rest context)"

definition model_lookup :: "bool \<Rightarrow> MarkovModel \<Rightarrow> MarkovContext \<Rightarrow> MarkovValue list option" where
  "model_lookup sg model context =
     (case bucket_index sg model context of
        Inl e \<Rightarrow> None
      | Inr index \<Rightarrow> bucket_lookup (model_nodes model ! index) context)"

text \<open>A model as \<open>markov_model_new\<close> builds it for a size that is not zero.\<close>

definition model_wf :: "MarkovModel \<Rightarrow> bool" where
  "model_wf model \<longleftrightarrow> 0 < model_size model \<and> length (model_nodes model) = model_size model"


text \<open>Auxiliary notions for the proofs about \<open>markov_value_add_word\<close>.\<close>

definition increment_word :: "string \<Rightarrow> MarkovValue \<Rightarrow> MarkovValue" where
  "increment_word w v = (if value_word v = w then v\<lparr>value_count := value_count v + 1\<rparr> else v)"

definition table_invariant :: "string list \<Rightarrow> MarkovValue list \<Rightarrow> bool" where
  "table_invariant ws val \<longleftrightarrow>
     distinct (map value_word val) \<and> value_word ` set val = set ws \<and>
     (\<forall>v \<in> set val. value_count v = of_nat (count_list ws (value_word v))) \<and>
     sum_list (map value_count val) = of_nat (length ws)"

section \<open>Properties of contexts\<close>

lemma upt_context_size: "[0..<MARKOV_CONTEXT_SIZE] = [0, 1, 2]"
  by (simp add: MARKOV_CONTEXT_SIZE_def upt_rec)

lemma upt_last_index: "[0..<MARKOV_CONTEXT_SIZE - 1] = [0, 1]"
  by (simp add: MARKOV_CONTEXT_SIZE_def upt_rec)

lemma length_three: "length xs = 3 \<Longrightarrow> \<exists>x y z. xs = [x, y, z]"
  by (cases xs; simp; cases "tl xs"; simp; cases "tl (tl xs)"; auto)

lemma slot_equal_eq: "slot_equal x y \<longleftrightarrow> x = y"
  by (cases x; cases y) simp_all

lemma all_less_three: "(\<forall>i<3::nat. P i) \<longleftrightarrow> P 0 \<and> P 1 \<and> P 2"
proof -
  have "\<And>i::nat. i < 3 \<longleftrightarrow> i = 0 \<or> i = 1 \<or> i = 2" by arith
  then show ?thesis by auto
qed

lemma check_match_slots:
  "markov_context_check_match a b \<longleftrightarrow>
     (\<forall>i<MARKOV_CONTEXT_SIZE. previous_words a ! i = previous_words b ! i)"
proof -
  have "markov_context_check_match a b \<longleftrightarrow>
          previous_words a ! 0 = previous_words b ! 0 \<and>
          previous_words a ! 1 = previous_words b ! 1 \<and>
          previous_words a ! 2 = previous_words b ! 2"
    unfolding markov_context_check_match_def upt_context_size
    by (cases "previous_words a ! 0"; cases "previous_words b ! 0";
        cases "previous_words a ! 1"; cases "previous_words b ! 1";
        cases "previous_words a ! 2"; cases "previous_words b ! 2") (simp_all add: Let_def)
  then show ?thesis
    by (simp add: MARKOV_CONTEXT_SIZE_def all_less_three)
qed

lemma new_words: "markov_context_new = \<lparr>previous_words = [None, None, None]\<rparr>"
  by (simp add: markov_context_new_def MARKOV_CONTEXT_SIZE_def numeral_3_eq_3)

lemma push_words:
  "previous_words c = [x, y, z] \<Longrightarrow>
   markov_context_push_word (Some c) (Some w) = Inr \<lparr>previous_words = [y, z, Some w]\<rparr>"
  by (simp add: markov_context_push_word_def strdup_def Let_def MARKOV_CONTEXT_SIZE_def upt_rec)

lemma push_null: "markov_context_push_word context None = Inl NullDereference"
  by (simp add: markov_context_push_word_def strdup_def Let_def)

lemma model_wf_new: "0 < sz \<Longrightarrow> model_wf (markov_model_new sz)"
  by (simp add: model_wf_def markov_model_new_def)

lemma bucket_index_wf:
  "model_wf m \<Longrightarrow>
   bucket_index sg m c = Inr (unat (markov_context_get_hash sg c) mod model_size m)"
  by (simp add: bucket_index_def model_wf_def Let_def)

lemma get_next_lookup:
  "model_wf m \<Longrightarrow>
   markov_model_get_next sg m c g =
     (case model_lookup sg m c of
        None \<Rightarrow> Inr (None, g)
      | Some v \<Rightarrow> (case markov_value_get_random v g of
                     Inl e \<Rightarrow> Inl e
                   | Inr (w, g') \<Rightarrow> Inr (Some w, g')))"
proof -
  have "get_next_loop b c g =
     (case bucket_lookup b c of
        None \<Rightarrow> Inr (None, g)
      | Some v \<Rightarrow> (case markov_value_get_random v g of
                     Inl e \<Rightarrow> Inl e
                   | Inr (w, g') \<Rightarrow> Inr (Some w, g')))" for b
    by (induction b) simp_all
  then show "model_wf m \<Longrightarrow> ?thesis"
    by (simp add: markov_model_get_next_def model_lookup_def bucket_index_wf)
qed

lemma lookup_new: "0 < sz \<Longrightarrow> model_lookup sg (markov_model_new sz) c = None"
  by (simp add: model_lookup_def bucket_index_wf model_wf_new) (simp add: markov_model_new_def)

lemma reset_words:
  "length (previous_words c) = 3 \<Longrightarrow>
   markov_context_reset (Some c) = \<lparr>previous_words = [None, None, None]\<rparr>"
  by (auto simp: markov_context_reset_def upt_context_size dest!: length_three)

lemma unfilled_prefix_three:
  "unfilled_prefix \<lparr>previous_words = [x, y, z]\<rparr> \<longleftrightarrow> (x \<noteq> None \<longrightarrow> y \<noteq> None) \<and> (y \<noteq> None \<longrightarrow> z \<noteq> None)"
  by (auto simp: unfilled_prefix_def MARKOV_CONTEXT_SIZE_def all_less_three less_Suc_eq numeral_2_eq_2)

lemma unfilled_prefix_cases:
  assumes "unfilled_prefix c"
  obtains x y z where "c = \<lparr>previous_words = [x, y, z]\<rparr>"
    and "x \<noteq> None \<longrightarrow> y \<noteq> None" and "y \<noteq> None \<longrightarrow> z \<noteq> None"
proof -
  from assms obtain x y z where c: "c = \<lparr>previous_words = [x, y, z]\<rparr>"
    by (cases c) (auto simp: unfilled_prefix_def MARKOV_CONTEXT_SIZE_def dest!: length_three)
  with assms that show thesis by (simp add: unfilled_prefix_three)
qed

lemma copy_unfilled_prefix:
  assumes "unfilled_prefix c"
  shows "markov_context_copy (Some c) = Inr (Some c)"
proof -
  from assms obtain x y z where c: "c = \<lparr>previous_words = [x, y, z]\<rparr>"
    and p: "x \<noteq> None \<longrightarrow> y \<noteq> None" "y \<noteq> None \<longrightarrow> z \<noteq> None"
    by (rule unfilled_prefix_cases)
  show ?thesis
    unfolding markov_context_copy_def upt_context_size c new_words
    using p by (cases x; cases y; cases z) (simp_all add: push_words)
qed

lemma check_match_zero_one_two:
  "markov_context_check_match a b \<longleftrightarrow>
     previous_words a ! 0 = previous_words b ! 0 \<and>
     previous_words a ! 1 = previous_words b ! 1 \<and>
     previous_words a ! 2 = previous_words b ! 2"
  by (simp add: check_match_slots MARKOV_CONTEXT_SIZE_def all_less_three)

lemma check_match_hash:
  "markov_context_check_match a b \<Longrightarrow> markov_context_get_hash sg a = markov_context_get_hash sg b"
  unfolding markov_context_get_hash_def upt_context_size
  by (simp add: check_match_zero_one_two)

lemma check_match_refl: "markov_context_check_match a a"
  by (simp add: check_match_zero_one_two)

lemma check_match_left:
  "markov_context_check_match c c' \<Longrightarrow>
   markov_context_check_match x c \<longleftrightarrow> markov_context_check_match x c'"
  by (auto simp: check_match_zero_one_two)

lemma check_match_left_neg:
  "\<not> markov_context_check_match c c' \<Longrightarrow> markov_context_check_match x c \<Longrightarrow>
   \<not> markov_context_check_match x c'"
  by (auto simp: check_match_zero_one_two)

lemma node_find_add_None:
  "node_find_add b c w = None \<longleftrightarrow> bucket_lookup b c = None"
  by (induction b) (auto split: option.splits)

lemma node_find_add_Some:
  "node_find_add b c w = Some b' \<Longrightarrow>
   bucket_lookup b' c' =
     (if markov_context_check_match c c'
      then Some (markov_value_add_word (case bucket_lookup b c of None \<Rightarrow> [] | Some v \<Rightarrow> v) w)
      else bucket_lookup b c')"
proof (induction b arbitrary: b')
  case Nil
  then show ?case by simp
next
  case (Cons n rest)
  show ?case
  proof (cases "markov_context_check_match (node_context n) c")
    case True
    with Cons.prems have b': "b' = n\<lparr>node_value := markov_value_add_word (node_value n) w\<rparr> # rest"
      by simp
    show ?thesis
    proof (cases "markov_context_check_match c c'")
      case m: True
      with True have "markov_context_check_match (node_context n) c'"
        by (simp add: check_match_left)
      with True m b' show ?thesis by simp
    next
      case m: False
      from m True have "\<not> markov_context_check_match (node_context n) c'"
        by (rule check_match_left_neg)
      with True m b' show ?thesis by simp
    qed
  next
    case False
    with Cons.prems obtain rest' where r: "node_find_add rest c w = Some rest'" and b': "b' = n # rest'"
      by (auto split: option.splits)
    from Cons.IH [OF r] False b' show ?thesis
      by (auto simp: check_match_left)
  qed
qed

lemma node_add_lookup:
  assumes "unfilled_prefix c"
  shows "\<exists>b'. markov_node_add_node b c w = Inr b' \<and>
     (\<forall>c'. bucket_lookup b' c' =
        (if markov_context_check_match c c'
         then Some (markov_value_add_word (case bucket_lookup b c of None \<Rightarrow> [] | Some v \<Rightarrow> v) w)
         else bucket_lookup b c'))"
proof (cases "node_find_add b c w")
  case None
  then have "bucket_lookup b c = None" by (simp add: node_find_add_None)
  with None assms show ?thesis
    by (simp add: markov_node_add_node_def copy_unfilled_prefix)
next
  case (Some b')
  then show ?thesis
    by (simp add: markov_node_add_node_def node_find_add_Some)
qed

lemma add_data_lookup:
  assumes "model_wf m" and "unfilled_prefix c"
  shows "\<exists>m'. markov_model_add_data sg (Some m) c w = Inr (Some m') \<and> model_wf m' \<and>
     model_size m' = model_size m \<and>
     (\<forall>c'. model_lookup sg m' c' =
        (if markov_context_check_match c c'
         then Some (markov_value_add_word (case model_lookup sg m c of None \<Rightarrow> [] | Some v \<Rightarrow> v) w)
         else model_lookup sg m c'))"
proof -
  define i where "i = unat (markov_context_get_hash sg c) mod model_size m"
  from assms(1) have i: "i < length (model_nodes m)"
    by (simp add: i_def model_wf_def)
  from node_add_lookup [OF assms(2), of "model_nodes m ! i" w]
  obtain b' where b': "markov_node_add_node (model_nodes m ! i) c w = Inr b'"
    and l: "\<And>c'. bucket_lookup b' c' =
        (if markov_context_check_match c c'
         then Some (markov_value_add_word (case bucket_lookup (model_nodes m ! i) c of None \<Rightarrow> [] | Some v \<Rightarrow> v) w)
         else bucket_lookup (model_nodes m ! i) c')"
    by blast
  let ?m' = "m\<lparr>model_nodes := (model_nodes m)[i := b']\<rparr>"
  have add: "markov_model_add_data sg (Some m) c w = Inr (Some ?m')"
    using assms(1) b' by (simp add: markov_model_add_data_def bucket_index_wf i_def)
  have wf: "model_wf ?m'"
    using assms(1) by (simp add: model_wf_def)
  have "model_lookup sg ?m' c' =
        (if markov_context_check_match c c'
         then Some (markov_value_add_word (case model_lookup sg m c of None \<Rightarrow> [] | Some v \<Rightarrow> v) w)
         else model_lookup sg m c')" for c'
  proof (cases "unat (markov_context_get_hash sg c') mod model_size m = i")
    case True
    with i l [of c'] assms(1) wf show ?thesis
      by (simp add: model_lookup_def bucket_index_wf i_def)
  next
    case False
    then have "\<not> markov_context_check_match c c'"
      using check_match_hash [of c c' sg] by (auto simp: i_def)
    with False i assms(1) wf show ?thesis
      by (simp add: model_lookup_def bucket_index_wf)
  qed
  with add wf show ?thesis by auto
qed

lemma reachable_unfilled_prefix: "reachable c \<Longrightarrow> unfilled_prefix c"
proof (induction rule: reachable.induct)
  case reachable_new
  show ?case by (simp add: new_words unfilled_prefix_three)
next
  case (reachable_push c w c')
  from reachable_push.IH obtain x y z where c: "c = \<lparr>previous_words = [x, y, z]\<rparr>"
    by (cases c) (auto simp: unfilled_prefix_def MARKOV_CONTEXT_SIZE_def dest!: length_three)
  with reachable_push.hyps(2) have "c' = \<lparr>previous_words = [y, z, Some w]\<rparr>"
    by (simp add: push_words)
  with reachable_push.IH c show ?case by (simp add: unfilled_prefix_three)
next
  case (reachable_reset c)
  then have "length (previous_words c) = 3"
    by (simp add: unfilled_prefix_def MARKOV_CONTEXT_SIZE_def)
  then show ?case by (simp add: reset_words unfilled_prefix_three)
qed

lemma hash_word_foldl: "hash_word sg h w = foldl (\<lambda>h c. h * 33 + char_to_size_t sg c) h w"
  by (induction w arbitrary: h) (simp_all add: push_bit_eq_mult ac_simps)

lemma get_hash_reference:
  "markov_context_get_hash sg c = djb2_reference (char_to_size_t sg) (context_slots c)"
  unfolding markov_context_get_hash_def djb2_reference_def context_slots_def upt_context_size
  by (simp add: hash_word_foldl push_bit_eq_mult ac_simps split: option.splits)

lemma ucast_char: "ucast (of_char c :: 8 word) = byte_value c"
  by (cases c) (simp add: byte_value_def)

lemma scast_char_ascii: "of_char c < (128::nat) \<Longrightarrow> scast (of_char c :: 8 word) = byte_value c"
  by (cases c) (auto simp add: byte_value_def)

lemma scast_char_high:
  "(128::nat) \<le> of_char c \<Longrightarrow> scast (of_char c :: 8 word) = byte_value c - 256"
proof (cases c)
  case (Char x1 x2 x3 x4 x5 x6 x7 x8)
  assume "(128::nat) \<le> of_char c"
  with Char have x8 by (cases x8) (auto simp: of_bool_def split: if_splits)
  with Char show ?thesis by (simp add: byte_value_def)
qed

lemma char_to_size_t_byte:
  "\<not> sg \<or> of_char c < (128::nat) \<Longrightarrow> char_to_size_t sg c = byte_value c"
  by (auto simp: char_to_size_t_def ucast_char scast_char_ascii)

lemma djb2_word_cong:
  "\<forall>c \<in> set word. f c = g c \<Longrightarrow>
   foldl (\<lambda>h c. h * 33 + f c) hash word = foldl (\<lambda>h c. h * 33 + (g c :: size_t)) hash word"
  by (induction word arbitrary: hash) simp_all

lemma djb2_reference_ascii:
  assumes "\<not> sg \<or> ascii_slots slots"
  shows "djb2_reference (char_to_size_t sg) slots = djb2_reference byte_value slots"
proof -
  have w: "foldl (\<lambda>h c. h * 33 + char_to_size_t sg c) hash word
      = foldl (\<lambda>h c. h * 33 + byte_value c) hash word"
    if "\<not> sg \<or> list_all (\<lambda>c. of_char c < (128::nat)) word" for hash word
    using that by (intro djb2_word_cong) (auto simp: char_to_size_t_byte list_all_iff)
  have "foldl (\<lambda>hash slot. case slot of
                Some word \<Rightarrow> foldl (\<lambda>h c. h * 33 + char_to_size_t sg c) hash word
              | None \<Rightarrow> hash * 33) h0 slots
      = foldl (\<lambda>hash slot. case slot of
                Some word \<Rightarrow> foldl (\<lambda>h c. h * 33 + byte_value c) hash word
              | None \<Rightarrow> hash * 33) h0 slots" for h0
    using assms
  proof (induction slots arbitrary: h0)
    case Nil
    show ?case by simp
  next
    case (Cons slot slots)
    then show ?case
      by (cases slot) (auto simp: ascii_slots_def w)
  qed
  then show ?thesis by (simp add: djb2_reference_def)
qed

lemma new_store_eq:
  "markov_context_new_store s =
     (next_addr s,
      s\<lparr>structs := (structs s)(next_addr s \<mapsto> [None, None, None]), next_addr := next_addr s + 1\<rparr>)"
  by (simp add: markov_context_new_store_def MARKOV_CONTEXT_SIZE_def numeral_3_eq_3)

lemma push_store_words:
  assumes "structs s c = Some [x, y, z]" and "strings s p = Some w"
  shows "markov_context_push_word_store s (Some c) (Some p) =
     Inr (c, (case x of Some q \<Rightarrow> free_store (s\<lparr>strings := (strings s)(next_addr s \<mapsto> w), next_addr := next_addr s + 1\<rparr>) q
              | None \<Rightarrow> s\<lparr>strings := (strings s)(next_addr s \<mapsto> w), next_addr := next_addr s + 1\<rparr>)
             \<lparr>structs := (structs s)(c \<mapsto> [y, z, Some (next_addr s)])\<rparr>)"
  using assms
  by (cases x) (simp_all add: markov_context_push_word_store_def strdup_store_def Let_def
      MARKOV_CONTEXT_SIZE_def upt_rec free_store_def)

section \<open>Properties of transition tables\<close>

lemma total_count_fold:
  "fold (\<lambda>v total. total + value_count v) val a = a + sum_list (map value_count val)"
  by (induction val arbitrary: a) (simp_all add: ac_simps)

lemma total_count_sum: "total_count val = sum_list (map value_count val)"
  by (simp add: total_count_def total_count_fold)

lemma table_total_Cons: "table_total (v # rest) = unat (value_count v) + table_total rest"
  by (simp add: table_total_def)

lemma unat_sum_counts:
  "table_total val < 2 ^ 64 \<Longrightarrow> unat (sum_list (map value_count val)) = table_total val"
proof (induction val)
  case Nil
  show ?case by (simp add: table_total_def)
next
  case (Cons v rest)
  then have "unat (sum_list (map value_count rest)) = table_total rest"
    by (simp add: table_total_Cons)
  moreover from this Cons.prems
  have "unat (value_count v) + unat (sum_list (map value_count rest)) < 2 ^ LENGTH(64)"
    by (simp add: table_total_Cons)
  ultimately show ?case
    by (simp add: table_total_Cons unat_add_lem [THEN iffD1])
qed

lemma unat_total_count:
  "table_total val < 2 ^ 64 \<Longrightarrow> unat (total_count val) = table_total val"
  by (simp add: total_count_sum unat_sum_counts)

lemma cumulative_Cons_Suc:
  "cumulative (v # rest) (Suc i) = unat (value_count v) + cumulative rest i"
  by (simp add: cumulative_def table_total_def)

lemma cumulative_Suc:
  "i < length val \<Longrightarrow> cumulative val (Suc i) = cumulative val i + unat (value_count (val ! i))"
  by (simp add: cumulative_def table_total_def take_Suc_conv_app_nth)

lemma cumulative_mono: "i \<le> j \<Longrightarrow> cumulative val i \<le> cumulative val j"
proof (induction j)
  case 0
  then show ?case by simp
next
  case (Suc j)
  show ?case
  proof (cases "i = Suc j")
    case True
    then show ?thesis by simp
  next
    case False
    with Suc have le: "cumulative val i \<le> cumulative val j" by simp
    show ?thesis
    proof (cases "j < length val")
      case True
      with le show ?thesis by (simp add: cumulative_Suc)
    next
      case False
      with le show ?thesis by (simp add: cumulative_def)
    qed
  qed
qed

lemma random_walk_range:
  "unat r < table_total val \<Longrightarrow>
   \<exists>i<length val. cumulative val i \<le> unat r \<and> unat r < cumulative val (Suc i) \<and>
      random_walk val r = Some (value_word (val ! i))"
proof (induction val arbitrary: r)
  case Nil
  then show ?case by (simp add: table_total_def)
next
  case (Cons v rest)
  show ?case
  proof (cases "r < value_count v")
    case True
    then have "unat r < unat (value_count v)" by (simp add: word_less_nat_alt)
    with True have "cumulative (v # rest) 0 \<le> unat r \<and> unat r < cumulative (v # rest) (Suc 0) \<and>
      random_walk (v # rest) r = Some (value_word ((v # rest) ! 0))"
      by (simp add: cumulative_def table_total_def)
    then show ?thesis by blast
  next
    case False
    then have le: "value_count v \<le> r" by simp
    then have sub: "unat (r - value_count v) = unat r - unat (value_count v)"
      by (rule unat_sub)
    from le have le': "unat (value_count v) \<le> unat r" by (simp add: word_le_nat_alt)
    with Cons.prems sub have "unat (r - value_count v) < table_total rest"
      by (simp add: table_total_Cons)
    from Cons.IH [OF this] obtain i where i: "i < length rest"
      "cumulative rest i \<le> unat (r - value_count v)"
      "unat (r - value_count v) < cumulative rest (Suc i)"
      "random_walk rest (r - value_count v) = Some (value_word (rest ! i))"
      by blast
    with False sub le' have "Suc i < length (v # rest) \<and> cumulative (v # rest) (Suc i) \<le> unat r \<and>
      unat r < cumulative (v # rest) (Suc (Suc i)) \<and>
      random_walk (v # rest) r = Some (value_word ((v # rest) ! Suc i))"
      by (simp add: cumulative_Cons_Suc) arith
    then show ?thesis by blast
  qed
qed

lemma cumulative_range_unique:
  assumes "cumulative val i \<le> r" "r < cumulative val (Suc i)"
    and "cumulative val j \<le> r" "r < cumulative val (Suc j)"
  shows "j = i"
proof (rule ccontr)
  assume "j \<noteq> i"
  then consider "Suc j \<le> i" | "Suc i \<le> j" by linarith
  then show False
  proof cases
    case 1
    from cumulative_mono [OF 1, of val] assms show False by simp
  next
    case 2
    from cumulative_mono [OF 2, of val] assms show False by simp
  qed
qed

lemma rand_bound: "fst (rand g) < 2 ^ 31"
  by (simp add: rand_def)

lemma unat_draw:
  assumes "table_total val < 2 ^ 64"
  shows "unat (of_nat (fst (rand g)) mod total_count val :: size_t) = fst (rand g) mod table_total val"
proof -
  have "fst (rand g) < 2 ^ 31" by (rule rand_bound)
  also have "(2::nat) ^ 31 < 2 ^ 64" by simp
  finally have "unat (of_nat (fst (rand g)) :: size_t) = fst (rand g)"
    by (simp add: unat_of_nat)
  with assms show ?thesis by (simp add: unat_mod unat_total_count)
qed

lemma increment_word_same:
  "value_word v = w \<Longrightarrow> increment_word w v = v\<lparr>value_count := value_count v + 1\<rparr>"
  by (simp add: increment_word_def)

lemma increment_word_other: "value_word v \<noteq> w \<Longrightarrow> increment_word w v = v"
  by (simp add: increment_word_def)

lemma find_increment_None:
  "value_find_increment val w = None \<longleftrightarrow> w \<notin> value_word ` set val"
  by (induction val) (auto split: option.splits)

lemma find_increment_Some:
  "distinct (map value_word val) \<Longrightarrow> value_find_increment val w = Some val' \<Longrightarrow>
   val' = map (increment_word w) val"
proof (induction val arbitrary: val')
  case Nil
  then show ?case by simp
next
  case (Cons v rest)
  show ?case
  proof (cases "value_word v = w")
    case True
    with Cons.prems(1) have "\<forall>x \<in> set rest. value_word x \<noteq> w" by (auto simp: image_iff)
    then have "map (increment_word w) rest = rest"
      by (simp add: increment_word_other map_idI)
    with True Cons.prems(2) show ?thesis by (auto simp: increment_word_same)
  next
    case False
    with Cons.prems(2) obtain rest' where r: "value_find_increment rest w = Some rest'"
      and v: "val' = v # rest'"
      by (auto split: option.splits)
    from Cons.prems(1) have "distinct (map value_word rest)" by simp
    from Cons.IH [OF this r] v False show ?thesis by (simp add: increment_word_other)
  qed
qed

lemma value_word_increment: "value_word (increment_word w v) = value_word v"
  by (simp add: increment_word_def)

lemma add_word_cases:
  assumes "distinct (map value_word val)"
  shows "(w \<notin> value_word ` set val \<and> markov_value_add_word val w = markov_value_new w # val)
       \<or> (w \<in> value_word ` set val \<and> markov_value_add_word val w = map (increment_word w) val)"
proof (cases "value_find_increment val w")
  case None
  then have "w \<notin> value_word ` set val" by (simp add: find_increment_None)
  with None show ?thesis by (simp add: markov_value_add_word_def)
next
  case (Some val')
  then have "w \<in> value_word ` set val"
    using find_increment_None [of val w] by simp
  with Some find_increment_Some [OF assms Some] show ?thesis
    by (simp add: markov_value_add_word_def)
qed

lemma sum_increment:
  "distinct (map value_word val) \<Longrightarrow> w \<in> value_word ` set val \<Longrightarrow>
   sum_list (map value_count (map (increment_word w) val)) = sum_list (map value_count val) + 1"
proof (induction val)
  case Nil
  then show ?case by simp
next
  case (Cons v rest)
  show ?case
  proof (cases "value_word v = w")
    case True
    with Cons.prems(1) have "\<forall>x \<in> set rest. value_word x \<noteq> w" by (auto simp: image_iff)
    then have "map (increment_word w) rest = rest"
      by (simp add: increment_word_other map_idI)
    with True show ?thesis by (simp add: increment_word_same)
  next
    case False
    with Cons show ?thesis by (auto simp: increment_word_other)
  qed
qed

lemma map_value_word_increment:
  "map value_word (map (increment_word w) val) = map value_word val"
  by (simp add: comp_def value_word_increment)

lemma count_increment:
  "value_count (increment_word w v) = value_count v + (if value_word v = w then 1 else 0)"
  by (simp add: increment_word_def)

lemma table_invariant_add:
  assumes "table_invariant ws val"
  shows "table_invariant (ws @ [w]) (markov_value_add_word val w)"
proof -
  from assms have d: "distinct (map value_word val)"
    and k: "value_word ` set val = set ws"
    and c: "\<forall>v \<in> set val. value_count v = of_nat (count_list ws (value_word v))"
    and s: "sum_list (map value_count val) = of_nat (length ws)"
    by (simp_all add: table_invariant_def)
  from add_word_cases [OF d, of w] show ?thesis
  proof (elim disjE conjE)
    assume "w \<notin> value_word ` set val"
      and "markov_value_add_word val w = markov_value_new w # val"
    with d k c s show ?thesis
      by (auto simp: table_invariant_def markov_value_new_def)
  next
    assume w: "w \<in> value_word ` set val"
      and a: "markov_value_add_word val w = map (increment_word w) val"
    have "distinct (map value_word (map (increment_word w) val))"
      using d by (simp only: map_value_word_increment)
    moreover have "value_word ` set (map (increment_word w) val) = set (ws @ [w])"
    proof -
      have "value_word ` set (map (increment_word w) val) = value_word ` set val"
        by (simp add: image_image value_word_increment)
      with k w show ?thesis by auto
    qed
    moreover have "\<forall>v \<in> set (map (increment_word w) val).
        value_count v = of_nat (count_list (ws @ [w]) (value_word v))"
      using c by (auto simp: count_increment value_word_increment)
    moreover have "sum_list (map value_count (map (increment_word w) val))
        = of_nat (length (ws @ [w]))"
      using sum_increment [OF d w] s by simp
    ultimately show ?thesis
      unfolding a table_invariant_def by blast
  qed
qed

lemma table_invariant_foldl: "table_invariant ws (foldl markov_value_add_word [] ws)"
proof (induction ws rule: rev_induct)
  case Nil
  show ?case by (simp add: table_invariant_def)
next
  case (snoc w ws)
  then show ?case by (simp add: table_invariant_add)
qed

section \<open>Properties of the model and the generator\<close>

lemma get_random_single:
  "0 < k \<Longrightarrow>
   markov_value_get_random [\<lparr>value_word = w, value_count = k\<rparr>] g = Inr (w, snd (rand g))"
  by (simp add: markov_value_get_random_def total_count_def Let_def split_beta
      word_mod_less_divisor)

lemma add_word_empty: "markov_value_add_word [] w = [\<lparr>value_word = w, value_count = 1\<rparr>]"
  by (simp add: markov_value_add_word_def markov_value_new_def)

lemma get_next_single:
  "model_wf m \<Longrightarrow> model_lookup sg m c = Some [\<lparr>value_word = w, value_count = k\<rparr>] \<Longrightarrow> 0 < k \<Longrightarrow>
   markov_model_get_next sg m c g = Inr (Some w, snd (rand g))"
  by (simp add: get_next_lookup get_random_single)

lemma check_end_a: "\<not> check_end_condition ''a''"
  by (simp add: check_end_condition_def)

lemma fgets_lines_body:
  "CHR 0x0A \<notin> set body \<Longrightarrow> length body < room \<Longrightarrow>
   fgets_lines room line (body @ rest) = fgets_lines (room - length body) (line @ body) rest"
proof (induction body arbitrary: room line)
  case Nil
  show ?case by simp
next
  case (Cons c body)
  from Cons.prems have "c \<noteq> CHR 0x0A" "\<not> room \<le> 1" "CHR 0x0A \<notin> set body"
    "length body < room - 1"
    by auto
  with Cons.IH [of "room - 1" "line @ [c]"] show ?case by simp
qed

lemma fgets_lines_newline:
  assumes "CHR 0x0A \<notin> set body" and "length body < room"
  shows "fgets_lines room line (body @ CHR 0x0A # rest)
     = (line @ body @ [CHR 0x0A]) # fgets_all rest"
  using fgets_lines_body [OF assms, of line "CHR 0x0A # rest"] by (simp add: fgets_all_def)

lemma fgets_lines_full:
  assumes "CHR 0x0A \<notin> set body" and "length body < room"
  shows "fgets_lines room line (body @ c # rest) =
     (if c = CHR 0x0A \<or> length body + 1 = room
      then (line @ body @ [c]) # fgets_all rest
      else fgets_lines (room - length body - 1) (line @ body @ [c]) rest)"
  using fgets_lines_body [OF assms, of line "c # rest"] assms(2) by (auto simp: fgets_all_def)

lemma fgets_lines_last:
  assumes "CHR 0x0A \<notin> set (butlast l)" and "l \<noteq> []" and "length l \<le> room"
  shows "fgets_lines room line l = [line @ l]"
proof -
  from assms(2) have l: "l = butlast l @ [last l]" by simp
  from assms(2,3) have "length (butlast l) < room" by (cases l) auto
  from fgets_lines_full [OF assms(1) this, of line "last l" "[]"] l
  show ?thesis by (auto simp: fgets_all_def split: if_splits)
qed

lemma tokens_append_space:
  "tokens cur (s @ CHR '' '' # t) = tokens cur s @ tokens [] t"
  by (induction s arbitrary: cur) (simp_all add: is_delimiter_def)

lemma tokens_word:
  "\<forall>c \<in> set w. \<not> is_delimiter c \<Longrightarrow> tokens cur w = (if cur @ w = [] then [] else [cur @ w])"
  by (induction w arbitrary: cur) simp_all

lemma strtok_quote_of_words:
  assumes "\<forall>w \<in> set ws. w \<noteq> [] \<and> (\<forall>c \<in> set w. \<not> is_delimiter c)"
  shows "\<exists>q. foldl (\<lambda>quote w. add_word_to_quote quote (Some w)) (Some q0) ws = Some q \<and>
           strtok_all q = strtok_all q0 @ ws"
  using assms
proof (induction ws arbitrary: q0)
  case Nil
  show ?case by simp
next
  case (Cons w ws)
  then have w: "w \<noteq> []" "\<forall>c \<in> set w. \<not> is_delimiter c" by simp_all
  have "strtok_all ((if q0 \<noteq> [] then q0 @ '' '' else q0) @ w) = strtok_all q0 @ [w]"
    using w by (cases "q0 = []") (simp_all add: strtok_all_def tokens_append_space tokens_word)
  with Cons.IH [of "(if q0 \<noteq> [] then q0 @ '' '' else q0) @ w"] Cons.prems show ?case
    by (simp add: add_word_to_quote_def)
qed

lemma generate_loop_absent:
  "markov_model_get_next sg model context g = Inr (None, g') \<Longrightarrow> counter \<le> MAX_QUOTE_LENGTH \<Longrightarrow>
   generate_loop sg model context counter quote g = Inl NullDereference"
  by (subst generate_loop.simps) (simp add: push_null)

lemma generate_step:
  assumes "model_wf m"
    and "model_lookup sg m c = Some [\<lparr>value_word = w, value_count = k\<rparr>]"
    and "0 < k" and "\<not> check_end_condition w"
    and "previous_words c = [x, y, z]" and "counter \<le> MAX_QUOTE_LENGTH"
  shows "generate_loop sg m c counter quote g =
     generate_loop sg m \<lparr>previous_words = [y, z, Some w]\<rparr> (counter + 1)
       (add_word_to_quote quote (Some w)) (snd (rand g))"
  using assms
  by (subst generate_loop.simps) (simp add: get_next_single push_words)

lemma generate_loop_fixed:
  assumes "model_wf m"
    and "model_lookup sg m \<lparr>previous_words = [Some w, Some w, Some w]\<rparr>
           = Some [\<lparr>value_word = w, value_count = k\<rparr>]"
    and "0 < k" and "\<not> check_end_condition w"
  shows "n = MAX_QUOTE_LENGTH + 1 - counter \<Longrightarrow>
     map_sum id fst
       (generate_loop sg m \<lparr>previous_words = [Some w, Some w, Some w]\<rparr> counter quote g)
     = Inr (foldl (\<lambda>quote w. add_word_to_quote quote (Some w)) quote (replicate n w))"
proof (induction n arbitrary: counter quote g)
  case 0
  then have "\<not> counter \<le> MAX_QUOTE_LENGTH" by simp
  then show ?case by (subst generate_loop.simps) simp
next
  case (Suc n)
  then have le: "counter \<le> MAX_QUOTE_LENGTH" and n: "n = MAX_QUOTE_LENGTH + 1 - (counter + 1)"
    by simp_all
  have "generate_loop sg m \<lparr>previous_words = [Some w, Some w, Some w]\<rparr> counter quote g =
     generate_loop sg m \<lparr>previous_words = [Some w, Some w, Some w]\<rparr> (counter + 1)
       (add_word_to_quote quote (Some w)) (snd (rand g))"
    using assms le by (simp add: generate_step [where x = "Some w"])
  with Suc.IH [OF n] show ?case by simp
qed

lemma load_a:
  "\<exists>m. markov_model_load_file sg (Some ''a a a a'') = Inr (Some m) \<and> model_wf m \<and>
     model_lookup sg m \<lparr>previous_words = [None, None, None]\<rparr>
       = Some [\<lparr>value_word = ''a'', value_count = 1\<rparr>] \<and>
     model_lookup sg m \<lparr>previous_words = [None, None, Some ''a'']\<rparr>
       = Some [\<lparr>value_word = ''a'', value_count = 1\<rparr>] \<and>
     model_lookup sg m \<lparr>previous_words = [None, Some ''a'', Some ''a'']\<rparr>
       = Some [\<lparr>value_word = ''a'', value_count = 1\<rparr>] \<and>
     model_lookup sg m \<lparr>previous_words = [Some ''a'', Some ''a'', Some ''a'']\<rparr>
       = Some [\<lparr>value_word = ''a'', value_count = 1\<rparr>]"
proof -
  let ?c0 = "\<lparr>previous_words = [None, None, None]\<rparr>"
  let ?c1 = "\<lparr>previous_words = [None, None, Some ''a'']\<rparr>"
  let ?c2 = "\<lparr>previous_words = [None, Some ''a'', Some ''a'']\<rparr>"
  let ?c3 = "\<lparr>previous_words = [Some ''a'', Some ''a'', Some ''a'']\<rparr>"
  let ?m0 = "markov_model_new HASH_MAP_SIZE"
  have wf0: "model_wf ?m0" by (simp add: model_wf_new HASH_MAP_SIZE_def)
  have l0: "model_lookup sg ?m0 c = None" for c by (simp add: lookup_new HASH_MAP_SIZE_def)
  have p: "unfilled_prefix ?c0" "unfilled_prefix ?c1" "unfilled_prefix ?c2" "unfilled_prefix ?c3"
    by (simp_all add: unfilled_prefix_three)
  from add_data_lookup [OF wf0 p(1), of sg "''a''"] obtain m1 where
    m1: "markov_model_add_data sg (Some ?m0) ?c0 ''a'' = Inr (Some m1)" "model_wf m1"
    and l1: "\<And>c'. model_lookup sg m1 c' =
        (if markov_context_check_match ?c0 c'
         then Some (markov_value_add_word (case model_lookup sg ?m0 ?c0 of None \<Rightarrow> [] | Some v \<Rightarrow> v) ''a'')
         else model_lookup sg ?m0 c')"
    by blast
  from add_data_lookup [OF m1(2) p(2), of sg "''a''"] obtain m2 where
    m2: "markov_model_add_data sg (Some m1) ?c1 ''a'' = Inr (Some m2)" "model_wf m2"
    and l2: "\<And>c'. model_lookup sg m2 c' =
        (if markov_context_check_match ?c1 c'
         then Some (markov_value_add_word (case model_lookup sg m1 ?c1 of None \<Rightarrow> [] | Some v \<Rightarrow> v) ''a'')
         else model_lookup sg m1 c')"
    by blast
  from add_data_lookup [OF m2(2) p(3), of sg "''a''"] obtain m3 where
    m3: "markov_model_add_data sg (Some m2) ?c2 ''a'' = Inr (Some m3)" "model_wf m3"
    and l3: "\<And>c'. model_lookup sg m3 c' =
        (if markov_context_check_match ?c2 c'
         then Some (markov_value_add_word (case model_lookup sg m2 ?c2 of None \<Rightarrow> [] | Some v \<Rightarrow> v) ''a'')
         else model_lookup sg m2 c')"
    by blast
  from add_data_lookup [OF m3(2) p(4), of sg "''a''"] obtain m4 where
    m4: "markov_model_add_data sg (Some m3) ?c3 ''a'' = Inr (Some m4)" "model_wf m4"
    and l4: "\<And>c'. model_lookup sg m4 c' =
        (if markov_context_check_match ?c3 c'
         then Some (markov_value_add_word (case model_lookup sg m3 ?c3 of None \<Rightarrow> [] | Some v \<Rightarrow> v) ''a'')
         else model_lookup sg m3 c')"
    by blast
  have t: "strtok_all ''a a a a'' = [''a'', ''a'', ''a'', ''a'']"
    by (simp add: strtok_all_def is_delimiter_def)
  have f: "fgets_all ''a a a a'' = [''a a a a'']"
    by (simp add: fgets_all_def LINE_SIZE_def)
  have "markov_model_load_file sg (Some ''a a a a'') = Inr (Some m4)"
    by (simp add: markov_model_load_file_def f load_line_def t first_char_def new_words
        m1 m2 m3 m4 push_words)
  moreover have "model_lookup sg m4 ?c0 = Some [\<lparr>value_word = ''a'', value_count = 1\<rparr>]"
    "model_lookup sg m4 ?c1 = Some [\<lparr>value_word = ''a'', value_count = 1\<rparr>]"
    "model_lookup sg m4 ?c2 = Some [\<lparr>value_word = ''a'', value_count = 1\<rparr>]"
    "model_lookup sg m4 ?c3 = Some [\<lparr>value_word = ''a'', value_count = 1\<rparr>]"
    by (simp_all add: l4 l3 l2 l1 l0 check_match_zero_one_two add_word_empty)
  ultimately show ?thesis using m4(2) by blast
qed

section \<open>The claims\<close>

text \<open>
  C1. The claim: when \<open>markov_model_get_next\<close> returns no word, the generator stops and
  returns the quote built so far, and a model with no entries gives the empty quote. The
  code hands the null word to \<open>markov_context_push_word\<close>, hence to \<open>strdup\<close>, before
  it tests it: on the model that loading an empty file builds, generation ends in the
  dereference of a null pointer, for every random source.
\<close>

theorem generate_empty_model_null_dereference:
  "markov_model_load_file sg (Some []) = Inr (Some (markov_model_new HASH_MAP_SIZE))
   \<and> markov_model_get_next sg (markov_model_new HASH_MAP_SIZE) markov_context_new g = Inr (None, g)
   \<and> markov_model_generate_quote sg (markov_model_new HASH_MAP_SIZE) g = Inl NullDereference"
proof -
  have "model_wf (markov_model_new HASH_MAP_SIZE)"
    by (simp add: model_wf_new HASH_MAP_SIZE_def)
  moreover have "model_lookup sg (markov_model_new HASH_MAP_SIZE) markov_context_new = None"
    by (simp add: lookup_new HASH_MAP_SIZE_def)
  ultimately have n: "markov_model_get_next sg (markov_model_new HASH_MAP_SIZE) markov_context_new g
      = Inr (None, g)"
    by (simp add: get_next_lookup)
  then have "markov_model_generate_quote sg (markov_model_new HASH_MAP_SIZE) g
      = Inl NullDereference"
    unfolding markov_model_generate_quote_def
    by (rule generate_loop_absent) simp
  with n show ?thesis by (simp add: markov_model_load_file_def fgets_all_def)
qed

text \<open>
  C2. The claim: a model in which every context has one successor and no word ends a
  sentence gives a quote of exactly \<open>MAX_QUOTE_LENGTH\<close> words. The loop runs while
  \<open>counter \<le> MAX_QUOTE_LENGTH\<close>, from 0: on the model trained on the line \<open>a a a a\<close>
  the quote is the one that appending \<open>MAX_QUOTE_LENGTH + 1\<close> words builds, and it has
  \<open>MAX_QUOTE_LENGTH + 1\<close> words.
\<close>

theorem generate_exceeds_max_quote_length:
  "\<exists>m q. markov_model_load_file sg (Some ''a a a a'') = Inr (Some m) \<and>
     map_sum id fst (markov_model_generate_quote sg m g) = Inr (Some q) \<and>
     Some q = quote_of_words (replicate (MAX_QUOTE_LENGTH + 1) ''a'') \<and>
     strtok_all q = replicate (MAX_QUOTE_LENGTH + 1) ''a'' \<and>
     length (strtok_all q) = MAX_QUOTE_LENGTH + 1"
proof -
  from load_a [of sg] obtain m where m: "markov_model_load_file sg (Some ''a a a a'') = Inr (Some m)"
    and wf: "model_wf m"
    and l: "model_lookup sg m \<lparr>previous_words = [None, None, None]\<rparr>
       = Some [\<lparr>value_word = ''a'', value_count = 1\<rparr>]"
     "model_lookup sg m \<lparr>previous_words = [None, None, Some ''a'']\<rparr>
       = Some [\<lparr>value_word = ''a'', value_count = 1\<rparr>]"
     "model_lookup sg m \<lparr>previous_words = [None, Some ''a'', Some ''a'']\<rparr>
       = Some [\<lparr>value_word = ''a'', value_count = 1\<rparr>]"
     "model_lookup sg m \<lparr>previous_words = [Some ''a'', Some ''a'', Some ''a'']\<rparr>
       = Some [\<lparr>value_word = ''a'', value_count = 1\<rparr>]"
    by blast
  have r: "replicate (MAX_QUOTE_LENGTH + 1) ''a'' =
      ''a'' # ''a'' # ''a'' # replicate (MAX_QUOTE_LENGTH + 1 - (0 + 1 + 1 + 1)) ''a''"
    by (simp add: MAX_QUOTE_LENGTH_def numeral_eq_Suc)
  have le: "0 \<le> MAX_QUOTE_LENGTH" "0 + 1 \<le> MAX_QUOTE_LENGTH" "0 + 1 + 1 \<le> MAX_QUOTE_LENGTH"
    by (simp_all add: MAX_QUOTE_LENGTH_def)
  have one: "(0::size_t) < 1" by simp
  let ?q = "\<lambda>quote. add_word_to_quote quote (Some ''a'')"
  have "generate_loop sg m \<lparr>previous_words = [None, None, None]\<rparr> 0 (Some []) g =
      generate_loop sg m \<lparr>previous_words = [None, None, Some ''a'']\<rparr> (0 + 1)
        (?q (Some [])) (snd (rand g))"
    by (rule generate_step [OF wf l(1) one check_end_a _ le(1)]) simp
  also have "\<dots> =
      generate_loop sg m \<lparr>previous_words = [None, Some ''a'', Some ''a'']\<rparr> (0 + 1 + 1)
        (?q (?q (Some []))) (snd (rand (snd (rand g))))"
    by (rule generate_step [OF wf l(2) one check_end_a _ le(2)]) simp
  also have "\<dots> =
      generate_loop sg m \<lparr>previous_words = [Some ''a'', Some ''a'', Some ''a'']\<rparr> (0 + 1 + 1 + 1)
        (?q (?q (?q (Some [])))) (snd (rand (snd (rand (snd (rand g))))))"
    by (rule generate_step [OF wf l(3) one check_end_a _ le(3)]) simp
  finally have e: "generate_loop sg m \<lparr>previous_words = [None, None, None]\<rparr> 0 (Some []) g =
      generate_loop sg m \<lparr>previous_words = [Some ''a'', Some ''a'', Some ''a'']\<rparr> (0 + 1 + 1 + 1)
        (?q (?q (?q (Some [])))) (snd (rand (snd (rand (snd (rand g))))))" .
  have "map_sum id fst (markov_model_generate_quote sg m g) =
      Inr (foldl (\<lambda>quote w. add_word_to_quote quote (Some w)) (?q (?q (?q (Some []))))
             (replicate (MAX_QUOTE_LENGTH + 1 - (0 + 1 + 1 + 1)) ''a''))"
    unfolding markov_model_generate_quote_def new_words e
    by (rule generate_loop_fixed [OF wf l(4) one check_end_a refl])
  then have g: "map_sum id fst (markov_model_generate_quote sg m g)
       = Inr (quote_of_words (replicate (MAX_QUOTE_LENGTH + 1) ''a''))"
    unfolding quote_of_words_def r by simp
  have "\<forall>w \<in> set (replicate (MAX_QUOTE_LENGTH + 1) ''a''). w \<noteq> [] \<and> (\<forall>c \<in> set w. \<not> is_delimiter c)"
    by (simp add: is_delimiter_def)
  from strtok_quote_of_words [OF this, of "[]"] obtain q where
    q: "quote_of_words (replicate (MAX_QUOTE_LENGTH + 1) ''a'') = Some q"
    and t: "strtok_all q = replicate (MAX_QUOTE_LENGTH + 1) ''a''"
    by (auto simp: quote_of_words_def strtok_all_def)
  from t have "length (strtok_all q) = MAX_QUOTE_LENGTH + 1" by simp
  with m g q t show ?thesis by simp
qed

text \<open>
  C3. After \<open>markov_model_add_data\<close> of a context and a word to a model that has no node
  matching the context, \<open>markov_model_get_next\<close> for that context returns the word,
  provided the unfilled slots of the context are a prefix of its slots and the model has
  as many buckets as its size, at least one. (The node stores the copy of the context,
  which pushes the filled slots to the end; the bucket is the hash modulo the size.)
\<close>

theorem add_data_then_get_next:
  assumes "model_wf m" and "unfilled_prefix ctx"
    and "\<forall>bucket \<in> set (model_nodes m). \<forall>n \<in> set bucket.
           \<not> markov_context_check_match (node_context n) ctx"
  shows "\<exists>m'. markov_model_add_data sg (Some m) ctx w = Inr (Some m') \<and>
           markov_model_get_next sg m' ctx g = Inr (Some w, snd (rand g))"
proof -
  have none: "bucket_lookup b ctx = None"
    if "\<forall>n \<in> set b. \<not> markov_context_check_match (node_context n) ctx" for b
    using that by (induction b) simp_all
  from assms(1) have "model_nodes m ! (unat (markov_context_get_hash sg ctx) mod model_size m)
      \<in> set (model_nodes m)"
    by (simp add: model_wf_def)
  with assms(3) have "bucket_lookup
      (model_nodes m ! (unat (markov_context_get_hash sg ctx) mod model_size m)) ctx = None"
    by (intro none) blast
  with assms(1) have l: "model_lookup sg m ctx = None"
    by (simp add: model_lookup_def bucket_index_wf)
  from add_data_lookup [OF assms(1,2), of sg w] obtain m' where
    m': "markov_model_add_data sg (Some m) ctx w = Inr (Some m')" "model_wf m'"
    and l': "\<And>c'. model_lookup sg m' c' =
        (if markov_context_check_match ctx c'
         then Some (markov_value_add_word (case model_lookup sg m ctx of None \<Rightarrow> [] | Some v \<Rightarrow> v) w)
         else model_lookup sg m c')"
    by blast
  from l l' [of ctx] have "model_lookup sg m' ctx = Some [\<lparr>value_word = w, value_count = 1\<rparr>]"
    by (simp add: check_match_refl add_word_empty)
  with m'(2) have "markov_model_get_next sg m' ctx g = Inr (Some w, snd (rand g))"
    by (simp add: get_next_single)
  with m'(1) show ?thesis by blast
qed

theorem add_data_then_get_next_witness:
  "\<exists>m'. markov_model_add_data True (Some (markov_model_new HASH_MAP_SIZE))
            \<lparr>previous_words = [None, Some ''to'', Some ''be'']\<rparr> ''or'' = Inr (Some m') \<and>
         markov_model_get_next True m' \<lparr>previous_words = [None, Some ''to'', Some ''be'']\<rparr> id
           = Inr (Some ''or'', snd (rand id))"
proof -
  have a: "model_wf (markov_model_new HASH_MAP_SIZE)"
    by (simp add: model_wf_new HASH_MAP_SIZE_def)
  have b: "unfilled_prefix \<lparr>previous_words = [None, Some ''to'', Some ''be'']\<rparr>"
    by (simp add: unfilled_prefix_three)
  have c: "\<forall>bucket \<in> set (model_nodes (markov_model_new HASH_MAP_SIZE)). \<forall>n \<in> set bucket.
      \<not> markov_context_check_match (node_context n)
          \<lparr>previous_words = [None, Some ''to'', Some ''be'']\<rparr>"
    by (simp add: markov_model_new_def)
  from add_data_then_get_next [OF a b c] show ?thesis .
qed

theorem add_data_then_get_next_counterexample:
  "markov_model_add_data True (Some (markov_model_new HASH_MAP_SIZE))
     \<lparr>previous_words = [Some ''a'', None, None]\<rparr> ''hello''
   = Inr (Some \<lparr>model_size = 420,
                 model_nodes = (replicate 420 [])
                   [390 := [\<lparr>node_context = \<lparr>previous_words = [None, None, Some ''a'']\<rparr>,
                             node_value = [\<lparr>value_word = ''hello'', value_count = 1\<rparr>]\<rparr>]]\<rparr>)
   \<and> markov_model_get_next True
       \<lparr>model_size = 420,
        model_nodes = (replicate 420 [])
          [390 := [\<lparr>node_context = \<lparr>previous_words = [None, None, Some ''a'']\<rparr>,
                    node_value = [\<lparr>value_word = ''hello'', value_count = 1\<rparr>]\<rparr>]]\<rparr>
       \<lparr>previous_words = [Some ''a'', None, None]\<rparr> id
     = Inr (None, id)
   \<and> markov_model_add_data True (Some (markov_model_new 0)) markov_context_new ''hello''
     = Inl DivisionByZero"
proof -
  have h: "markov_context_get_hash True \<lparr>previous_words = [Some ''a'', None, None]\<rparr> = 193482630"
    unfolding markov_context_get_hash_def upt_context_size
    by (simp add: char_to_size_t_def)
  have i: "unat (193482630 :: size_t) mod 420 = 390"
    by simp
  have c: "markov_context_copy (Some \<lparr>previous_words = [Some ''a'', None, None]\<rparr>)
      = Inr (Some \<lparr>previous_words = [None, None, Some ''a'']\<rparr>)"
    unfolding markov_context_copy_def upt_context_size new_words
    by (simp add: push_words)
  have n: "\<not> markov_context_check_match \<lparr>previous_words = [None, None, Some ''a'']\<rparr>
      \<lparr>previous_words = [Some ''a'', None, None]\<rparr>"
    by (simp add: check_match_zero_one_two)
  show ?thesis
    by (simp add: markov_model_add_data_def markov_model_get_next_def bucket_index_def
        markov_model_new_def HASH_MAP_SIZE_def h i c n markov_node_add_node_def
        add_word_empty)
qed

text \<open>
  C4. \<open>markov_context_copy\<close> of a context whose unfilled slots are a prefix of its slots
  returns a context that is independent of the original and equal to it: the copy is a
  struct that was not allocated before, each of its words is a string that was not
  allocated before, the original struct and every string allocated before are
  unchanged, and \<open>markov_context_check_match\<close> accepts the value of the copy against the
  value of the original. The value of the copy is the one the function on values
  returns.
\<close>

theorem copy_independent_and_equal:
  assumes "store_wf s" and "context_wf s a"
    and "context_at s a = Some ctx" and "unfilled_prefix ctx"
  shows "\<exists>b s' copy words.
       markov_context_copy_store s (Some a) = Inr (Some b, s')
     \<and> structs s b = None
     \<and> structs s' a = structs s a
     \<and> (\<forall>p. strings s p \<noteq> None \<longrightarrow> strings s' p = strings s p)
     \<and> structs s' b = Some words \<and> length words = MARKOV_CONTEXT_SIZE
     \<and> (\<forall>q. Some q \<in> set words \<longrightarrow> strings s q = None \<and> strings s' q \<noteq> None)
     \<and> context_at s' a = Some ctx
     \<and> context_at s' b = Some copy
     \<and> markov_context_check_match copy ctx
     \<and> markov_context_copy (Some ctx) = Inr (Some copy)"
proof -
  from assms(2) obtain x y z where ws: "structs s a = Some [x, y, z]"
    and valid: "\<forall>p. Some p \<in> set [x, y, z] \<longrightarrow> strings s p \<noteq> None"
    by (auto simp: context_wf_def MARKOV_CONTEXT_SIZE_def dest!: length_three)
  from assms(1) ws have a: "a < next_addr s" by (simp add: store_wf_def)
  from assms(1) have fresh: "strings s (next_addr s + k) = None" "structs s (next_addr s + k) = None" for k
    by (auto simp: store_wf_def)
  from assms(1) have fresh3: "strings s (Suc (Suc (Suc (next_addr s)))) = None"
    by (auto simp: store_wf_def)
  from fresh [of 0] have fresh0: "strings s (next_addr s) = None" "structs s (next_addr s) = None"
    by simp_all
  from assms(1) valid have lt: "\<forall>p. Some p \<in> set [x, y, z] \<longrightarrow> p < next_addr s"
    by (auto simp: store_wf_def)
  from assms(3) ws have ctx: "ctx = \<lparr>previous_words =
      map (\<lambda>p. case p of None \<Rightarrow> None | Some q \<Rightarrow> strings s q) [x, y, z]\<rparr>"
    by (simp add: context_at_def)
  from assms(4) valid have p: "(x \<noteq> None \<longrightarrow> y \<noteq> None) \<and> (y \<noteq> None \<longrightarrow> z \<noteq> None)"
    unfolding ctx by (auto simp: unfilled_prefix_three split: option.splits)
  have cm: "markov_context_check_match ctx ctx" by (rule check_match_refl)
  have cp: "markov_context_copy (Some ctx) = Inr (Some ctx)"
    using assms(4) by (rule copy_unfilled_prefix)
  from ws a fresh0 have sa: "structs
      (s\<lparr>structs := (structs s)(next_addr s \<mapsto> [None, None, None]), next_addr := next_addr s + 1\<rparr>) a
      = Some [x, y, z]"
    by auto
  show ?thesis
  proof (cases x)
    case None
    note x = None
    show ?thesis
    proof (cases y)
      case None
      note y = None
      show ?thesis
      proof (cases z)
        case None
        with x y ws a fresh0 cm cp ctx show ?thesis
          unfolding markov_context_copy_store_def new_store_eq upt_context_size
          by (auto simp: MARKOV_CONTEXT_SIZE_def context_at_def)
      next
        case (Some r)
        with valid have "strings s r \<noteq> None" by simp
        then obtain w where w: "strings s r = Some w" by auto
        from Some lt have r: "r < next_addr s" by simp
        from x y Some w r ws a fresh0 fresh [of 1] cm cp ctx show ?thesis
          unfolding markov_context_copy_store_def new_store_eq upt_context_size
          by (auto simp: MARKOV_CONTEXT_SIZE_def context_at_def push_store_words)
      qed
    next
      case (Some q)
      with p obtain r where z: "z = Some r" by auto
      from valid have "strings s q \<noteq> None" "strings s r \<noteq> None"
        by (simp_all add: Some z)
      then obtain v w where w: "strings s q = Some v" "strings s r = Some w" by auto
      from Some z lt have r: "q < next_addr s" "r < next_addr s" by simp_all
      from x Some z w r ws a fresh0 fresh [of 1] fresh [of 2] cm cp ctx show ?thesis
        unfolding markov_context_copy_store_def new_store_eq upt_context_size
        by (auto simp: MARKOV_CONTEXT_SIZE_def context_at_def push_store_words)
    qed
  next
    case (Some p0)
    with p obtain q r where yz: "y = Some q" "z = Some r" by auto
    from valid have "strings s p0 \<noteq> None" "strings s q \<noteq> None" "strings s r \<noteq> None"
      by (simp_all add: Some yz)
    then obtain u v w where w: "strings s p0 = Some u" "strings s q = Some v"
      "strings s r = Some w" by auto
    from Some yz lt have r: "p0 < next_addr s" "q < next_addr s" "r < next_addr s" by simp_all
    from Some yz w r ws a fresh0 fresh [of 1] fresh [of 2] fresh3 cm cp ctx show ?thesis
      unfolding markov_context_copy_store_def new_store_eq upt_context_size
      by (auto simp: MARKOV_CONTEXT_SIZE_def context_at_def push_store_words)
  qed
qed

theorem copy_independent_and_equal_witness:
  "markov_context_copy_store
     \<lparr>strings = Map.empty(1 \<mapsto> ''to'', 2 \<mapsto> ''be''),
      structs = Map.empty(0 \<mapsto> [None, Some 1, Some 2]), next_addr = 3\<rparr> (Some 0)
   = Inr (Some 3,
          \<lparr>strings = Map.empty(1 \<mapsto> ''to'', 2 \<mapsto> ''be'', 4 \<mapsto> ''to'', 5 \<mapsto> ''be''),
           structs = Map.empty(0 \<mapsto> [None, Some 1, Some 2], 3 \<mapsto> [None, Some 4, Some 5]),
           next_addr = 6\<rparr>)
   \<and> context_at
        \<lparr>strings = Map.empty(1 \<mapsto> ''to'', 2 \<mapsto> ''be'', 4 \<mapsto> ''to'', 5 \<mapsto> ''be''),
         structs = Map.empty(0 \<mapsto> [None, Some 1, Some 2], 3 \<mapsto> [None, Some 4, Some 5]),
         next_addr = 6\<rparr> 3
     = Some \<lparr>previous_words = [None, Some ''to'', Some ''be'']\<rparr>
   \<and> markov_context_copy (Some \<lparr>previous_words = [None, Some ''to'', Some ''be'']\<rparr>)
     = Inr (Some \<lparr>previous_words = [None, Some ''to'', Some ''be'']\<rparr>)"
proof -
  let ?s = "\<lparr>strings = Map.empty(1 \<mapsto> ''to'', 2 \<mapsto> ''be''),
      structs = Map.empty(0 \<mapsto> [None, Some 1, Some 2]), next_addr = 3\<rparr>"
  have a: "store_wf ?s" by (simp add: store_wf_def)
  have b: "context_wf ?s 0" by (simp add: context_wf_def MARKOV_CONTEXT_SIZE_def)
  have c: "context_at ?s 0 = Some \<lparr>previous_words = [None, Some ''to'', Some ''be'']\<rparr>"
    by (simp add: context_at_def)
  have d: "unfilled_prefix \<lparr>previous_words = [None, Some ''to'', Some ''be'']\<rparr>"
    by (simp add: unfilled_prefix_three)
  from copy_independent_and_equal [OF a b c d] obtain b' s' copy where
    r: "markov_context_copy_store ?s (Some 0) = Inr (Some b', s')"
    "context_at s' b' = Some copy"
    "markov_context_copy (Some \<lparr>previous_words = [None, Some ''to'', Some ''be'']\<rparr>)
       = Inr (Some copy)"
    by blast
  have e: "markov_context_copy_store ?s (Some 0)
     = Inr (Some 3, \<lparr>strings = Map.empty(1 \<mapsto> ''to'', 2 \<mapsto> ''be'', 4 \<mapsto> ''to'', 5 \<mapsto> ''be''),
           structs = Map.empty(0 \<mapsto> [None, Some 1, Some 2], 3 \<mapsto> [None, Some 4, Some 5]),
           next_addr = 6\<rparr>)"
    unfolding markov_context_copy_store_def new_store_eq upt_context_size
    by (simp add: push_store_words)
  from r e d show ?thesis by (auto simp: copy_unfilled_prefix)
qed

theorem copy_independent_and_equal_counterexample:
  "markov_context_copy_store
     \<lparr>strings = Map.empty(1 \<mapsto> ''a''), structs = Map.empty(0 \<mapsto> [Some 1, None, None]),
      next_addr = 2\<rparr> (Some 0)
   = Inr (Some 2,
          \<lparr>strings = Map.empty(1 \<mapsto> ''a'', 3 \<mapsto> ''a''),
           structs = Map.empty(0 \<mapsto> [Some 1, None, None], 2 \<mapsto> [None, None, Some 3]),
           next_addr = 4\<rparr>)
   \<and> context_at \<lparr>strings = Map.empty(1 \<mapsto> ''a'', 3 \<mapsto> ''a''),
           structs = Map.empty(0 \<mapsto> [Some 1, None, None], 2 \<mapsto> [None, None, Some 3]),
           next_addr = 4\<rparr> 0 = Some \<lparr>previous_words = [Some ''a'', None, None]\<rparr>
   \<and> context_at \<lparr>strings = Map.empty(1 \<mapsto> ''a'', 3 \<mapsto> ''a''),
           structs = Map.empty(0 \<mapsto> [Some 1, None, None], 2 \<mapsto> [None, None, Some 3]),
           next_addr = 4\<rparr> 2 = Some \<lparr>previous_words = [None, None, Some ''a'']\<rparr>
   \<and> \<not> markov_context_check_match \<lparr>previous_words = [None, None, Some ''a'']\<rparr>
          \<lparr>previous_words = [Some ''a'', None, None]\<rparr>"
  unfolding markov_context_copy_store_def new_store_eq upt_context_size
  by (simp add: context_at_def push_store_words check_match_zero_one_two)

text \<open>
  C5. Every context reachable from \<open>markov_context_new\<close> by pushing words and resetting
  has \<open>MARKOV_CONTEXT_SIZE\<close> slots, and when slot \<open>i\<close> is filled every later slot \<open>j\<close> is
  filled too.
\<close>

theorem reachable_filled_suffix:
  "reachable c \<Longrightarrow>
   length (previous_words c) = MARKOV_CONTEXT_SIZE \<and>
   (\<forall>i j. i < j \<and> j < MARKOV_CONTEXT_SIZE \<and> previous_words c ! i \<noteq> None
      \<longrightarrow> previous_words c ! j \<noteq> None)"
  using reachable_unfilled_prefix [of c] by (auto simp: unfilled_prefix_def)

theorem reachable_filled_suffix_witness:
  "reachable \<lparr>previous_words = [None, Some ''to'', Some ''be'']\<rparr>
   \<and> length [None, Some ''to'', Some ''be''] = MARKOV_CONTEXT_SIZE
   \<and> [None, Some ''to'', Some ''be''] ! 1 \<noteq> None
   \<and> [None, Some ''to'', Some ''be''] ! 2 \<noteq> None"
proof -
  have "markov_context_push_word (Some markov_context_new) (Some ''to'')
      = Inr \<lparr>previous_words = [None, None, Some ''to'']\<rparr>"
    by (simp add: new_words push_words)
  from reachable_push [OF reachable_new this]
  have "reachable \<lparr>previous_words = [None, None, Some ''to'']\<rparr>" .
  moreover have "markov_context_push_word (Some \<lparr>previous_words = [None, None, Some ''to'']\<rparr>)
      (Some ''be'') = Inr \<lparr>previous_words = [None, Some ''to'', Some ''be'']\<rparr>"
    by (simp add: push_words)
  ultimately have r: "reachable \<lparr>previous_words = [None, Some ''to'', Some ''be'']\<rparr>"
    by (rule reachable_push)
  from reachable_filled_suffix [OF r] r show ?thesis
    by (simp add: MARKOV_CONTEXT_SIZE_def)
qed

text \<open>
  C6. Contexts that \<open>markov_context_check_match\<close> accepts have the same hash. The hash is
  the djb2 scheme over the slots in order (seed 5381, times 33 plus the character for
  each character of a filled slot, times 33 for an unfilled slot), the character read as
  a plain C \<open>char\<close> and converted to \<open>size_t\<close>: that is the byte when plain \<open>char\<close> is
  unsigned or the byte is below 128, and the byte minus 256 when plain \<open>char\<close> is signed
  and the byte is 128 or more. So the hash is the djb2 reference over the bytes when plain
  \<open>char\<close> is unsigned or every character is ASCII. There are words \<open>x\<close>, \<open>y\<close>, \<open>z\<close> for
  which the contexts \<open>[x, y, z]\<close> and \<open>[z, y, x]\<close> have different hashes.
\<close>

theorem get_hash_consistent_djb2:
  "(markov_context_check_match a b \<longrightarrow>
      markov_context_get_hash sg a = markov_context_get_hash sg b)
   \<and> markov_context_get_hash sg a = djb2_reference (char_to_size_t sg) (context_slots a)
   \<and> (\<not> sg \<or> of_char c < (128::nat) \<longrightarrow> char_to_size_t sg c = byte_value c)
   \<and> (sg \<and> (128::nat) \<le> of_char c \<longrightarrow> char_to_size_t sg c = byte_value c - 256)
   \<and> (\<not> sg \<or> ascii_slots (context_slots a) \<longrightarrow>
        markov_context_get_hash sg a = djb2_reference byte_value (context_slots a))
   \<and> (\<exists>x y z. markov_context_get_hash sg \<lparr>previous_words = [Some x, Some y, Some z]\<rparr>
               \<noteq> markov_context_get_hash sg \<lparr>previous_words = [Some z, Some y, Some x]\<rparr>)"
proof -
  have "markov_context_get_hash sg \<lparr>previous_words = [Some ''a'', Some ''b'', Some ''c'']\<rparr>
      \<noteq> markov_context_get_hash sg \<lparr>previous_words = [Some ''c'', Some ''b'', Some ''a'']\<rparr>"
    unfolding markov_context_get_hash_def upt_context_size
    by (simp add: char_to_size_t_def)
  then have order: "\<exists>x y z. markov_context_get_hash sg \<lparr>previous_words = [Some x, Some y, Some z]\<rparr>
               \<noteq> markov_context_get_hash sg \<lparr>previous_words = [Some z, Some y, Some x]\<rparr>"
    by blast
  have high: "sg \<and> (128::nat) \<le> of_char c \<longrightarrow> char_to_size_t sg c = byte_value c - 256"
    by (simp add: char_to_size_t_def scast_char_high)
  have low: "\<not> sg \<or> of_char c < (128::nat) \<longrightarrow> char_to_size_t sg c = byte_value c"
    using char_to_size_t_byte [of sg c] by blast
  have ascii: "\<not> sg \<or> ascii_slots (context_slots a) \<longrightarrow>
        markov_context_get_hash sg a = djb2_reference byte_value (context_slots a)"
    using djb2_reference_ascii [of sg "context_slots a"] get_hash_reference [of sg a] by simp
  from order high low ascii show ?thesis
    using check_match_hash [of a b sg] get_hash_reference [of sg a] by blast
qed

theorem get_hash_consistent_djb2_witness:
  "markov_context_check_match \<lparr>previous_words = [None, Some ''to'', Some ''be'']\<rparr>
     \<lparr>previous_words = [None, Some ''to'', Some ''be'']\<rparr>
   \<and> ascii_slots [None, Some ''to'', Some ''be'']
   \<and> markov_context_get_hash True \<lparr>previous_words = [None, Some ''to'', Some ''be'']\<rparr>
     = djb2_reference byte_value [None, Some ''to'', Some ''be'']"
proof -
  let ?c = "\<lparr>previous_words = [None, Some ''to'', Some ''be'']\<rparr>"
  have s: "context_slots ?c = [None, Some ''to'', Some ''be'']"
    by (simp add: context_slots_def upt_context_size)
  have m: "markov_context_check_match ?c ?c"
    by (rule check_match_refl)
  have a: "ascii_slots (context_slots ?c)"
    by (simp add: s ascii_slots_def)
  from get_hash_consistent_djb2 [of ?c ?c True "CHR ''t''"] a
  have "markov_context_get_hash True ?c = djb2_reference byte_value (context_slots ?c)"
    by blast
  with m a show ?thesis by (simp only: s)
qed

theorem get_hash_consistent_djb2_counterexample:
  "markov_context_get_hash True \<lparr>previous_words = [Some [CHR 0xE9], None, None]\<rparr> = 193351950
   \<and> djb2_reference byte_value (context_slots \<lparr>previous_words = [Some [CHR 0xE9], None, None]\<rparr>)
     = 193630734
   \<and> markov_context_get_hash True \<lparr>previous_words = [Some [CHR 0xE9], None, None]\<rparr>
     \<noteq> djb2_reference byte_value (context_slots \<lparr>previous_words = [Some [CHR 0xE9], None, None]\<rparr>)"
proof -
  have h: "markov_context_get_hash True \<lparr>previous_words = [Some [CHR 0xE9], None, None]\<rparr>
      = 193351950"
    unfolding markov_context_get_hash_def upt_context_size
    by (simp add: char_to_size_t_def)
  have r: "djb2_reference byte_value
      (context_slots \<lparr>previous_words = [Some [CHR 0xE9], None, None]\<rparr>) = 193630734"
    unfolding djb2_reference_def context_slots_def upt_context_size
    by (simp add: byte_value_def)
  show ?thesis unfolding h r by simp
qed

text \<open>
  C7. For a table that is not empty, whose total count \<open>T\<close> (the sum of its counts) is
  below \<open>2 ^ 64\<close>, and a draw \<open>r < T\<close> (the result of \<open>rand()\<close> modulo \<open>T\<close>),
  \<open>markov_value_get_random\<close> returns the word of the entry \<open>i\<close> whose range of
  cumulative counts, in the order of the list, contains \<open>r\<close>; no other entry's range
  contains \<open>r\<close>; the word is a key of the table. The result is a function of the table
  and the draw.
\<close>

theorem get_random_cumulative_range:
  assumes "val \<noteq> []" and "table_total val < 2 ^ 64"
    and "r < table_total val" and "fst (rand g) mod table_total val = r"
  shows "\<exists>i<length val.
           cumulative val i \<le> r \<and> r < cumulative val (Suc i) \<and>
           (\<forall>j<length val. cumulative val j \<le> r \<and> r < cumulative val (Suc j) \<longrightarrow> j = i) \<and>
           markov_value_get_random val g = Inr (value_word (val ! i), snd (rand g)) \<and>
           value_word (val ! i) \<in> value_word ` set val"
proof -
  let ?r = "of_nat (fst (rand g)) mod total_count val :: size_t"
  from assms(2,4) have r: "unat ?r = r" by (simp add: unat_draw)
  from assms(2,3) have "unat (total_count val) \<noteq> 0" by (simp add: unat_total_count)
  then have t: "total_count val \<noteq> 0" by (simp add: unat_eq_0)
  from r assms(3) have "unat ?r < table_total val" by simp
  from random_walk_range [OF this] r obtain i where i: "i < length val"
    "cumulative val i \<le> r" "r < cumulative val (Suc i)"
    "random_walk val ?r = Some (value_word (val ! i))"
    by auto
  from t i(4) have "markov_value_get_random val g = Inr (value_word (val ! i), snd (rand g))"
    by (simp add: markov_value_get_random_def Let_def split_beta)
  moreover from i(1) have "value_word (val ! i) \<in> value_word ` set val" by simp
  moreover have "\<forall>j<length val. cumulative val j \<le> r \<and> r < cumulative val (Suc j) \<longrightarrow> j = i"
    using cumulative_range_unique [OF i(2,3)] by blast
  ultimately show ?thesis using i by blast
qed

theorem get_random_cumulative_range_witness:
  "markov_value_get_random
     [\<lparr>value_word = ''y'', value_count = 9\<rparr>, \<lparr>value_word = ''x'', value_count = 1\<rparr>] ((+) 9)
   = Inr (''x'', snd (rand ((+) 9)))
   \<and> markov_value_get_random
     [\<lparr>value_word = ''x'', value_count = 1\<rparr>, \<lparr>value_word = ''y'', value_count = 9\<rparr>] ((+) 13)
   = Inr (''y'', snd (rand ((+) 13)))"
proof -
  let ?v = "[\<lparr>value_word = ''y'', value_count = 9\<rparr>, \<lparr>value_word = ''x'', value_count = 1\<rparr>]"
  let ?w = "[\<lparr>value_word = ''x'', value_count = 1\<rparr>, \<lparr>value_word = ''y'', value_count = 9\<rparr>]"
  have tv: "table_total ?v = 10" and tw: "table_total ?w = 10"
    by (simp_all add: table_total_def)
  have "?v \<noteq> []" "table_total ?v < 2 ^ 64" "9 < table_total ?v"
    "fst (rand ((+) 9)) mod table_total ?v = 9"
    by (simp_all add: tv rand_def)
  from get_random_cumulative_range [OF this]
  obtain i where i: "i < length ?v" "cumulative ?v i \<le> 9" "9 < cumulative ?v (Suc i)"
    "markov_value_get_random ?v ((+) 9) = Inr (value_word (?v ! i), snd (rand ((+) 9)))"
    by blast
  from i(1) have "i = 0 \<or> i = 1" by auto
  with i(2,3) have "i = 1" by (auto simp: cumulative_def table_total_def)
  with i(4) have x: "markov_value_get_random ?v ((+) 9) = Inr (''x'', snd (rand ((+) 9)))"
    by simp
  have "?w \<noteq> []" "table_total ?w < 2 ^ 64" "3 < table_total ?w"
    "fst (rand ((+) 13)) mod table_total ?w = 3"
    by (simp_all add: tw rand_def)
  from get_random_cumulative_range [OF this]
  obtain j where j: "j < length ?w" "cumulative ?w j \<le> 3" "3 < cumulative ?w (Suc j)"
    "markov_value_get_random ?w ((+) 13) = Inr (value_word (?w ! j), snd (rand ((+) 13)))"
    by blast
  from j(1) have "j = 0 \<or> j = 1" by auto
  with j(2,3) have "j = 1" by (auto simp: cumulative_def table_total_def)
  with j(4) have "markov_value_get_random ?w ((+) 13) = Inr (''y'', snd (rand ((+) 13)))"
    by simp
  with x show ?thesis by simp
qed

theorem get_random_cumulative_range_counterexample:
  "[\<lparr>value_word = ''x'', value_count = 2 ^ 63\<rparr>, \<lparr>value_word = ''y'', value_count = 2 ^ 63\<rparr>] \<noteq> []
   \<and> table_total
       [\<lparr>value_word = ''x'', value_count = 2 ^ 63\<rparr>, \<lparr>value_word = ''y'', value_count = 2 ^ 63\<rparr>]
     = 2 ^ 64
   \<and> total_count
       [\<lparr>value_word = ''x'', value_count = 2 ^ 63\<rparr>, \<lparr>value_word = ''y'', value_count = 2 ^ 63\<rparr>]
     = 0
   \<and> markov_value_get_random
       [\<lparr>value_word = ''x'', value_count = 2 ^ 63\<rparr>, \<lparr>value_word = ''y'', value_count = 2 ^ 63\<rparr>] id
     = Inl DivisionByZero"
  by (simp add: table_total_def total_count_def markov_value_get_random_def Let_def split_beta)

text \<open>
  C8. Adding the words of a sequence of fewer than \<open>2 ^ 64\<close> words, in order, to no table
  gives a table in which each word is a key at most once, the keys are the words of the
  sequence, the count of a key is the number of its occurrences in the sequence and at
  least 1, and the total count is the length of the sequence and the sum of the counts.
  So a word added \<open>K\<close> times has count \<open>K\<close> in a table of total \<open>K\<close>, and two distinct
  words have count 1 each in a table of total 2.
\<close>

theorem add_word_accumulates:
  assumes "length ws < 2 ^ 64"
  shows "distinct (map value_word (foldl markov_value_add_word [] ws))
   \<and> value_word ` set (foldl markov_value_add_word [] ws) = set ws
   \<and> (\<forall>v \<in> set (foldl markov_value_add_word [] ws).
        unat (value_count v) = count_list ws (value_word v) \<and> 1 \<le> unat (value_count v))
   \<and> unat (total_count (foldl markov_value_add_word [] ws)) = length ws
   \<and> unat (total_count (foldl markov_value_add_word [] ws))
       = table_total (foldl markov_value_add_word [] ws)
   \<and> (0 < K \<and> K < 2 ^ 64 \<longrightarrow>
        foldl markov_value_add_word [] (replicate K w) = [\<lparr>value_word = w, value_count = of_nat K\<rparr>]
        \<and> unat (of_nat K :: size_t) = K
        \<and> unat (total_count (foldl markov_value_add_word [] (replicate K w))) = K)
   \<and> (x \<noteq> y \<longrightarrow>
        foldl markov_value_add_word [] [x, y]
          = [\<lparr>value_word = y, value_count = 1\<rparr>, \<lparr>value_word = x, value_count = 1\<rparr>]
        \<and> total_count (foldl markov_value_add_word [] [x, y]) = 2)"
proof -
  let ?t = "foldl markov_value_add_word [] ws"
  have inv: "table_invariant ws ?t" by (rule table_invariant_foldl)
  then have d: "distinct (map value_word ?t)"
    and keys: "value_word ` set ?t = set ws"
    and counts: "\<forall>v \<in> set ?t. value_count v = of_nat (count_list ws (value_word v))"
    and total: "total_count ?t = of_nat (length ws)"
    by (simp_all add: table_invariant_def total_count_sum)
  have u: "unat (value_count v) = count_list ws (value_word v)" if "v \<in> set ?t" for v
  proof -
    have "count_list ws (value_word v) \<le> length ws" by (rule count_le_length)
    with assms have "count_list ws (value_word v) < 2 ^ 64" by simp
    with counts that show ?thesis by (simp add: unat_of_nat)
  qed
  have "1 \<le> count_list ws (value_word v)" if "v \<in> set ?t" for v
  proof -
    from that keys have "value_word v \<in> set ws" by blast
    then have "count_list ws (value_word v) \<noteq> 0" by (simp add: count_list_0_iff)
    then show ?thesis by simp
  qed
  with u have c: "\<forall>v \<in> set ?t.
      unat (value_count v) = count_list ws (value_word v) \<and> 1 \<le> unat (value_count v)"
    by simp
  from total assms have tl: "unat (total_count ?t) = length ws"
    by (simp add: unat_of_nat)
  have "table_total ?t = sum_list (map (count_list ws) (map value_word ?t))"
    using u by (simp add: table_total_def comp_def cong: map_cong)
  also have "\<dots> = sum (count_list ws) (set (map value_word ?t))"
    using d by (rule sum_list_distinct_conv_sum_set)
  also have "\<dots> = length ws"
    using keys by (simp add: sum_count_set)
  finally have s: "unat (total_count ?t) = table_total ?t"
    using tl by simp
  have rp: "foldl markov_value_add_word [\<lparr>value_word = w, value_count = n\<rparr>] (replicate k w)
      = [\<lparr>value_word = w, value_count = n + of_nat k\<rparr>]" for n k
    by (induction k arbitrary: n) (simp_all add: markov_value_add_word_def ac_simps)
  have r: "0 < K \<and> K < 2 ^ 64 \<longrightarrow>
        foldl markov_value_add_word [] (replicate K w) = [\<lparr>value_word = w, value_count = of_nat K\<rparr>]
        \<and> unat (of_nat K :: size_t) = K
        \<and> unat (total_count (foldl markov_value_add_word [] (replicate K w))) = K"
  proof (intro impI)
    assume K: "0 < K \<and> K < 2 ^ 64"
    then have "replicate K w = w # replicate (K - 1) w"
      by (cases K) simp_all
    moreover from K have "(1 + of_nat (K - 1) :: size_t) = of_nat K"
      by (cases K) simp_all
    ultimately have f: "foldl markov_value_add_word [] (replicate K w)
        = [\<lparr>value_word = w, value_count = of_nat K\<rparr>]"
      using rp [of 1 "K - 1"] by (simp add: markov_value_add_word_def markov_value_new_def)
    from K have "unat (of_nat K :: size_t) = K" by (simp add: unat_of_nat)
    with f show "foldl markov_value_add_word [] (replicate K w)
          = [\<lparr>value_word = w, value_count = of_nat K\<rparr>]
        \<and> unat (of_nat K :: size_t) = K
        \<and> unat (total_count (foldl markov_value_add_word [] (replicate K w))) = K"
      by (simp add: total_count_def)
  qed
  have two: "x \<noteq> y \<longrightarrow>
        foldl markov_value_add_word [] [x, y]
          = [\<lparr>value_word = y, value_count = 1\<rparr>, \<lparr>value_word = x, value_count = 1\<rparr>]
        \<and> total_count (foldl markov_value_add_word [] [x, y]) = 2"
    by (simp add: markov_value_add_word_def markov_value_new_def total_count_def)
  from d keys c tl s r two show ?thesis by blast
qed

theorem add_word_accumulates_witness:
  "foldl markov_value_add_word [] [''to'', ''be'', ''to'']
     = [\<lparr>value_word = ''be'', value_count = 1\<rparr>, \<lparr>value_word = ''to'', value_count = 2\<rparr>]
   \<and> unat (total_count (foldl markov_value_add_word [] [''to'', ''be'', ''to''])) = 3
   \<and> foldl markov_value_add_word [] (replicate 2 ''to'') = [\<lparr>value_word = ''to'', value_count = 2\<rparr>]"
proof -
  have "length [''to'', ''be'', ''to''] < 2 ^ 64" by simp
  from add_word_accumulates [OF this, of 2 "''to''" "''to''" "''be''"] show ?thesis
    by (simp add: markov_value_add_word_def markov_value_new_def)
qed

theorem add_word_accumulates_counterexample:
  "foldl markov_value_add_word [] (replicate (2 ^ 64) ''w'')
     = [\<lparr>value_word = ''w'', value_count = 0\<rparr>]
   \<and> count_list (replicate (2 ^ 64) ''w'') ''w'' = 2 ^ 64"
proof -
  have rp: "foldl markov_value_add_word [\<lparr>value_word = w, value_count = n\<rparr>] (replicate k w)
      = [\<lparr>value_word = w, value_count = n + of_nat k\<rparr>]" for n k and w :: string
    by (induction k arbitrary: n) (simp_all add: markov_value_add_word_def ac_simps)
  have "replicate (2 ^ 64) ''w'' = ''w'' # replicate (2 ^ 64 - 1) ''w''"
    by (metis Suc_pred' replicate_Suc zero_less_numeral zero_less_power)
  then have "foldl markov_value_add_word [] (replicate (2 ^ 64) ''w'')
      = [\<lparr>value_word = ''w'', value_count = 1 + of_nat (2 ^ 64 - 1)\<rparr>]"
    using rp [of "''w''" 1 "2 ^ 64 - 1"]
    by (simp add: markov_value_add_word_def markov_value_new_def)
  moreover have "(1 + of_nat (2 ^ 64 - 1) :: size_t) = 0"
    by simp
  moreover have "count_list (replicate k w) w = k" for k and w :: string
    by (induction k) simp_all
  ultimately show ?thesis by simp
qed

text \<open>
  C9. A line of the file of at most \<open>LINE_SIZE - 1\<close> characters, its newline included,
  whose first token begins with \<open>-\<close>, leaves the model and the running context as they
  are: \<open>fgets\<close> returns the line whole, the body of the loop returns model and context
  unchanged, and loading goes on with the rest of the file from the same model and the
  same context. (The line ends with its newline, or is the end of the file.)
\<close>

theorem skip_line_unchanged:
  assumes "line \<noteq> []" and "length line \<le> LINE_SIZE - 1"
    and "CHR 0x0A \<notin> set (butlast line)" and "last line = CHR 0x0A \<or> rest = []"
    and "strtok_all line = word # more_words" and "first_char word = CHR ''-''"
  shows "fgets_all (line @ rest) = line # fgets_all rest
     \<and> load_line sg model context line = Inr (model, context)
     \<and> load_lines sg model context (fgets_all (line @ rest))
         = load_lines sg model context (fgets_all rest)"
proof -
  have f: "fgets_all (line @ rest)
      = line # fgets_all rest"
  proof (cases "last line = CHR 0x0A")
    case True
    with assms(1) have l: "line = butlast line @ [CHR 0x0A]"
      by (metis append_butlast_last_id)
    from assms(1,2) have "length (butlast line) < LINE_SIZE - 1" by (cases line) auto
    from fgets_lines_newline [OF assms(3) this, of "[]" rest] l show ?thesis
      unfolding fgets_all_def [of "line @ rest"]
      by (metis append.assoc append_Cons append_Nil)
  next
    case False
    with assms(4) have "rest = []" by simp
    with fgets_lines_last [OF assms(3,1,2), of "[]"] show ?thesis by (simp add: fgets_all_def)
  qed
  from assms(5,6) have l: "load_line sg model context line = Inr (model, context)"
    by (simp add: load_line_def)
  from f l show ?thesis by simp
qed

theorem skip_line_unchanged_witness:
  "LINE_SIZE - 1 = 1023
   \<and> fgets_all (''- Hamlet'' @ [CHR 0x0A] @ ''to be'')
     = (''- Hamlet'' @ [CHR 0x0A]) # fgets_all ''to be''
   \<and> load_line True (Some (markov_model_new HASH_MAP_SIZE))
       \<lparr>previous_words = [None, Some ''to'', Some ''be'']\<rparr> (''- Hamlet'' @ [CHR 0x0A])
     = Inr (Some (markov_model_new HASH_MAP_SIZE),
            \<lparr>previous_words = [None, Some ''to'', Some ''be'']\<rparr>)"
proof -
  let ?line = "''- Hamlet'' @ [CHR 0x0A]"
  have a: "?line \<noteq> []" "length ?line \<le> LINE_SIZE - 1"
    "CHR 0x0A \<notin> set (butlast ?line)" "last ?line = CHR 0x0A \<or> ''to be'' = []"
    by (simp_all add: LINE_SIZE_def)
  have b: "strtok_all ?line = ''-'' # [''Hamlet'']"
    by (simp add: strtok_all_def is_delimiter_def)
  have c: "first_char ''-'' = CHR ''-''"
    by (simp add: first_char_def)
  from skip_line_unchanged [OF a b c] show ?thesis by (simp add: LINE_SIZE_def)
qed

theorem skip_line_unchanged_counterexample:
  "strtok_all (CHR ''-'' # replicate 1022 (CHR ''a'') @ '' x'' @ [CHR 0x0A])
     = [CHR ''-'' # replicate 1022 (CHR ''a''), ''x'']
   \<and> fgets_all (CHR ''-'' # replicate 1022 (CHR ''a'') @ '' x'' @ [CHR 0x0A])
     = [CHR ''-'' # replicate 1022 (CHR ''a''), '' x'' @ [CHR 0x0A]]
   \<and> markov_model_load_file True
       (Some (CHR ''-'' # replicate 1022 (CHR ''a'') @ '' x'' @ [CHR 0x0A]))
     = Inr (Some \<lparr>model_size = 420,
                   model_nodes = (replicate 420 [])
                     [177 := [\<lparr>node_context = \<lparr>previous_words = [None, None, None]\<rparr>,
                               node_value = [\<lparr>value_word = ''x'', value_count = 1\<rparr>]\<rparr>]]\<rparr>)
   \<and> markov_model_load_file True (Some []) = Inr (Some (markov_model_new HASH_MAP_SIZE))
   \<and> model_nodes (markov_model_new HASH_MAP_SIZE) ! 177 = []"
proof -
  let ?dash = "CHR ''-'' # replicate 1022 (CHR ''a'')"
  have nd: "\<forall>c \<in> set ?dash. \<not> is_delimiter c"
    by (auto simp: is_delimiter_def)
  have t1: "strtok_all ?dash = [?dash]"
    using tokens_word [OF nd, of "[]"] by (simp add: strtok_all_def)
  have "tokens [] (?dash @ CHR '' '' # ''x'' @ [CHR 0x0A]) = tokens [] ?dash @ tokens [] (''x'' @ [CHR 0x0A])"
    by (rule tokens_append_space)
  then have t: "strtok_all (?dash @ '' x'' @ [CHR 0x0A]) = [?dash, ''x'']"
    using t1 by (simp add: strtok_all_def is_delimiter_def)
  have t2: "strtok_all ('' x'' @ [CHR 0x0A]) = [''x'']"
    by (simp add: strtok_all_def is_delimiter_def)
  let ?body = "CHR ''-'' # replicate 1021 (CHR ''a'')"
  have nl: "CHR 0x0A \<notin> set ?body"
    by auto
  have "replicate 1022 (CHR ''a'') = replicate (Suc 1021) (CHR ''a'')"
    by simp
  also have "\<dots> = replicate 1021 (CHR ''a'') @ [CHR ''a'']"
    by (simp only: replicate_Suc replicate_append_same)
  finally have ld: "?dash = ?body @ [CHR ''a'']"
    by simp
  have "length ?body < LINE_SIZE - 1"
    by (simp add: LINE_SIZE_def)
  from fgets_lines_full [OF nl this, of "[]" "CHR ''a''" "'' x'' @ [CHR 0x0A]"]
  have "fgets_all ((?body @ [CHR ''a'']) @ '' x'' @ [CHR 0x0A])
      = (?body @ [CHR ''a'']) # fgets_all ('' x'' @ [CHR 0x0A])"
    by (simp add: LINE_SIZE_def fgets_all_def)
  moreover have "fgets_all ('' x'' @ [CHR 0x0A]) = ['' x'' @ [CHR 0x0A]]"
    by (simp add: LINE_SIZE_def fgets_all_def)
  ultimately have f: "fgets_all (?dash @ '' x'' @ [CHR 0x0A])
      = [?dash, '' x'' @ [CHR 0x0A]]"
    unfolding ld by simp
  have h: "markov_context_get_hash True \<lparr>previous_words = [None, None, None]\<rparr> = 193376997"
    unfolding markov_context_get_hash_def upt_context_size by simp
  have i: "unat (193376997 :: size_t) mod 420 = 177"
    by simp
  have c: "markov_context_copy (Some \<lparr>previous_words = [None, None, None]\<rparr>)
      = Inr (Some \<lparr>previous_words = [None, None, None]\<rparr>)"
    by (simp add: copy_unfilled_prefix unfilled_prefix_three)
  have a: "markov_model_add_data True (Some (markov_model_new HASH_MAP_SIZE))
      \<lparr>previous_words = [None, None, None]\<rparr> ''x''
    = Inr (Some \<lparr>model_size = 420,
                   model_nodes = (replicate 420 [])
                     [177 := [\<lparr>node_context = \<lparr>previous_words = [None, None, None]\<rparr>,
                               node_value = [\<lparr>value_word = ''x'', value_count = 1\<rparr>]\<rparr>]]\<rparr>)"
    by (simp add: markov_model_add_data_def bucket_index_def markov_model_new_def
        HASH_MAP_SIZE_def h i c markov_node_add_node_def add_word_empty)
  have "first_char ?dash = CHR ''-''" by (simp add: first_char_def)
  then have l1: "load_line True m c ?dash = Inr (m, c)" for m c
    by (simp add: load_line_def t1)
  let ?result = "\<lparr>model_size = 420,
                   model_nodes = (replicate 420 [])
                     [177 := [\<lparr>node_context = \<lparr>previous_words = [None, None, None]\<rparr>,
                               node_value = [\<lparr>value_word = ''x'', value_count = 1\<rparr>]\<rparr>]]\<rparr>"
  have l2: "load_line True (Some (markov_model_new HASH_MAP_SIZE))
      \<lparr>previous_words = [None, None, None]\<rparr> ('' x'' @ [CHR 0x0A])
    = Inr (Some ?result, \<lparr>previous_words = [None, None, Some ''x'']\<rparr>)"
    using t2 by (simp add: load_line_def first_char_def a push_words)
  have "load_lines True (Some (markov_model_new HASH_MAP_SIZE))
      \<lparr>previous_words = [None, None, None]\<rparr> [?dash, '' x'' @ [CHR 0x0A]]
    = Inr (Some ?result, \<lparr>previous_words = [None, None, Some ''x'']\<rparr>)"
    by (simp only: load_lines.simps l1 l2 sum.case prod.case)
  then have l: "markov_model_load_file True (Some (?dash @ '' x'' @ [CHR 0x0A]))
    = Inr (Some ?result)"
    by (simp only: markov_model_load_file_def f new_words option.case sum.case prod.case)
  have e: "markov_model_load_file True (Some []) = Inr (Some (markov_model_new HASH_MAP_SIZE))"
    by (simp add: markov_model_load_file_def fgets_all_def)
  have n: "model_nodes (markov_model_new HASH_MAP_SIZE) ! 177 = []"
    by (simp add: markov_model_new_def HASH_MAP_SIZE_def)
  from t f l e n show ?thesis by simp
qed

text \<open>
  C10. \<open>markov_context_check_match a b\<close> holds exactly when every one of the
  \<open>MARKOV_CONTEXT_SIZE\<close> slots of \<open>a\<close> equals the slot of \<open>b\<close> at the same index, an
  unfilled slot matching only an unfilled slot; the relation is reflexive, symmetric
  and transitive.
\<close>

theorem check_match_equivalence:
  "(markov_context_check_match a b \<longleftrightarrow>
      (\<forall>i<MARKOV_CONTEXT_SIZE. slot_equal (previous_words a ! i) (previous_words b ! i)))
   \<and> markov_context_check_match a a
   \<and> (markov_context_check_match a b \<longrightarrow> markov_context_check_match b a)
   \<and> (markov_context_check_match a b \<and> markov_context_check_match b c
        \<longrightarrow> markov_context_check_match a c)"
  by (simp add: check_match_slots slot_equal_eq)

theorem check_match_equivalence_witness:
  "markov_context_check_match
     \<lparr>previous_words = [None, Some ''to'', Some ''be'']\<rparr>
     \<lparr>previous_words = [None, Some ''to'', Some ''be'']\<rparr>
   \<and> \<not> markov_context_check_match
     \<lparr>previous_words = [None, Some ''to'', Some ''be'']\<rparr>
     \<lparr>previous_words = [None, None, Some ''be'']\<rparr>"
  using check_match_equivalence
    [of "\<lparr>previous_words = [None, Some ''to'', Some ''be'']\<rparr>"
        "\<lparr>previous_words = [None, Some ''to'', Some ''be'']\<rparr>"
        "\<lparr>previous_words = [None, Some ''to'', Some ''be'']\<rparr>"]
    check_match_equivalence
    [of "\<lparr>previous_words = [None, Some ''to'', Some ''be'']\<rparr>"
        "\<lparr>previous_words = [None, None, Some ''be'']\<rparr>"
        "\<lparr>previous_words = [None, Some ''to'', Some ''be'']\<rparr>"]
  by (simp add: MARKOV_CONTEXT_SIZE_def all_less_three)

end
